theory Spec2Isabelle
  imports Main "HOL-Library.Word" "HOL-Library.Sublist" "HOL-Library.Multiset"
begin

section \<open>Directory Analyzer: data model\<close>

text \<open>
  The repository holds two variants of one program: the sequential analyzer of
  \<^verbatim>\<open>da.cpp\<close> and the multithreaded analyzer whose source follows the README text.
  Where the two variants have a function of one name with different bodies, the
  multithreaded one carries the suffix \<open>_mt\<close>; \<^verbatim>\<open>processFile\<close> and
  \<^verbatim>\<open>processDirectory\<close> exist in the multithreaded variant only, and the per-file and
  per-directory code of \<^verbatim>\<open>da.cpp\<close>, which is inline in its \<^verbatim>\<open>analyze\<close>, is named
  \<open>analyzeFile\<close> and \<open>analyzeGit\<close> here.

  \<^verbatim>\<open>size_t\<close> is taken as the 64-bit unsigned integer of an LP64 platform; paths are
  POSIX path strings with the separator \<^verbatim>\<open>/\<close>.
\<close>

type_synonym size_t = "64 word"
type_synonym path = string

definition SIZE_MAX :: size_t where
  "SIZE_MAX = - 1"

record SizeThreshold =
  minSize :: size_t
  maxSize :: size_t

definition defaultThreshold :: SizeThreshold where
  "defaultThreshold = \<lparr>minSize = 0, maxSize = SIZE_MAX\<rparr>"

definition isValid :: "SizeThreshold \<Rightarrow> bool" where
  "isValid t \<longleftrightarrow> minSize t \<le> maxSize t"

record FileTypeStats =
  ft_count :: size_t
  ft_totalSize :: size_t

definition noStats :: FileTypeStats where
  "noStats = \<lparr>ft_count = 0, ft_totalSize = 0\<rparr>"

datatype error = OverflowError | FilesystemError

subsection \<open>Path components (std::filesystem::path, POSIX format)\<close>

text \<open>\<open>filename\<close>: the part of the path after its last separator.\<close>

definition filename :: "path \<Rightarrow> string" where
  "filename p = rev (takeWhile (\<lambda>c. c \<noteq> CHR ''/'') (rev p))"

text \<open>
  \<open>extension\<close>: the part of the file name from its rightmost period on, the period
  included; empty when the name has no period, when its only period is its first
  character, and for the names \<^verbatim>\<open>.\<close> and \<^verbatim>\<open>..\<close>.
\<close>

definition extension :: "path \<Rightarrow> string" where
  "extension p =
     (let f = filename p;
          e = CHR ''.'' # rev (takeWhile (\<lambda>c. c \<noteq> CHR ''.'') (rev f))
      in if CHR ''.'' \<notin> set f then []
         else if f = ''.'' \<or> f = ''..'' then []
         else if length e = length f then []
         else e)"

text \<open>\<open>parent_path\<close>: the path without its last component and the separators before it.\<close>

definition parent_path :: "path \<Rightarrow> path" where
  "parent_path p =
     (let d = dropWhile (\<lambda>c. c = CHR ''/'') (dropWhile (\<lambda>c. c \<noteq> CHR ''/'') (rev p))
      in if CHR ''/'' \<notin> set p then []
         else if d = [] then ''/''
         else rev d)"

text \<open>\<open>join d n\<close> is \<^verbatim>\<open>d / n\<close>, the path of the entry named \<open>n\<close> of the directory \<open>d\<close>.\<close>

definition join :: "path \<Rightarrow> string \<Rightarrow> path" where
  "join d n = (if d = [] \<or> last d = CHR ''/'' then d @ n else d @ ''/'' @ n)"

subsection \<open>Classification\<close>

text \<open>\<^verbatim>\<open>std::tolower\<close> in the C locale, which the program never changes.\<close>

definition tolower :: "char \<Rightarrow> char" where
  "tolower c =
     (if of_char c \<ge> (65::nat) \<and> of_char c \<le> (90::nat)
      then char_of (of_char c + (32::nat)) else c)"

definition safeToLower :: "string \<Rightarrow> string" where
  "safeToLower input = map tolower input"

definition getFileType :: "path \<Rightarrow> string" where
  "getFileType p =
     (if p = [] then ''[invalid]''
      else let fname = filename p in
        if fname = [] then ''[invalid]''
        else let ext = safeToLower (extension p) in
          if hd fname = CHR ''.''
          then (if fname = ext then ''[dotfile]''
                else if ext \<noteq> [] then ext else ''[dotfile]'')
          else (if ext = [] then ''[no extension]'' else ext))"

subsection \<open>Per-type accumulator\<close>

text \<open>
  \<^verbatim>\<open>FileTypeStats::update\<close> of \<^verbatim>\<open>da.cpp\<close>. The result pairs the exception thrown, if
  any, with the object as the call leaves it: the count is already incremented when
  the size check throws.
\<close>

definition update :: "size_t \<Rightarrow> FileTypeStats \<Rightarrow> error option \<times> FileTypeStats" where
  "update sz f =
     (if ft_count f = SIZE_MAX then (Some OverflowError, f)
      else let f1 = f\<lparr>ft_count := ft_count f + 1\<rparr> in
        if ft_totalSize f1 > SIZE_MAX - sz then (Some OverflowError, f1)
        else (None, f1\<lparr>ft_totalSize := ft_totalSize f1 + sz\<rparr>))"

text \<open>\<^verbatim>\<open>FileTypeStats::update\<close> of the multithreaded variant: two atomic additions.\<close>

definition update_mt :: "size_t \<Rightarrow> FileTypeStats \<Rightarrow> FileTypeStats" where
  "update_mt sz f = f\<lparr>ft_count := ft_count f + 1, ft_totalSize := ft_totalSize f + sz\<rparr>"

subsection \<open>CSV fields\<close>

definition dquote :: char where
  \<open>dquote = CHR ''"''\<close>

definition comma :: char where
  \<open>comma = CHR '',''\<close>

definition LF :: char where
  "LF = CHR 0x0A"

definition CR :: char where
  "CR = CHR 0x0D"

text \<open>\<^verbatim>\<open>std::replace\<close> over a whole string.\<close>

definition replace_char :: "char \<Rightarrow> char \<Rightarrow> string \<Rightarrow> string" where
  "replace_char old new s = map (\<lambda>c. if c = old then new else c) s"

text \<open>\<^verbatim>\<open>escapeCSV\<close> of \<^verbatim>\<open>da.cpp\<close>: the replacement puts a quote where a quote was.\<close>

definition escapeCSV :: "string \<Rightarrow> string" where
  "escapeCSV str =
     (if comma \<in> set str \<or> dquote \<in> set str \<or> LF \<in> set str
      then let escaped = replace_char dquote dquote str in [dquote] @ escaped @ [dquote]
      else str)"

text \<open>\<^verbatim>\<open>std::string::find(c, pos)\<close>; \<open>None\<close> is \<^verbatim>\<open>npos\<close>.\<close>

definition str_find :: "string \<Rightarrow> char \<Rightarrow> nat \<Rightarrow> nat option" where
  "str_find s c pos = List.find (\<lambda>i. s ! i = c) [pos..<length s]"

lemma str_find_SomeD:
  assumes "str_find s c pos = Some i"
  shows "pos \<le> i" "i < length s" "s ! i = c" "\<And>j. pos \<le> j \<Longrightarrow> j < i \<Longrightarrow> s ! j \<noteq> c"
proof -
  from assms obtain k where k: "k < length s - pos" "s ! (pos + k) = c" "i = pos + k"
    "\<forall>j<k. s ! (pos + j) \<noteq> c"
    unfolding str_find_def find_Some_iff by (auto simp: nth_upt)
  show "pos \<le> i" "i < length s" "s ! i = c" using k by auto
  fix j assume "pos \<le> j" "j < i"
  then have "j - pos < k" "pos + (j - pos) = j" using k by auto
  with k(4) show "s ! j \<noteq> c" by metis
qed

lemma str_find_NoneD: "str_find s c pos = None \<Longrightarrow> c \<notin> set (drop pos s)"
  unfolding str_find_def find_None_iff by (auto simp: in_set_conv_nth)

text \<open>
  The loop of the multithreaded \<^verbatim>\<open>escapeCSV\<close>: find the next quote from \<open>pos\<close> on,
  replace it by two quotes, go on two characters later.
\<close>

function quoteLoop :: "string \<Rightarrow> nat \<Rightarrow> string" where
  "quoteLoop escaped pos =
     (case str_find escaped dquote pos of
        None \<Rightarrow> escaped
      | Some i \<Rightarrow> quoteLoop (take i escaped @ [dquote, dquote] @ drop (Suc i) escaped) (i + 2))"
  by pat_completeness auto
termination
proof (relation "measure (\<lambda>(e, pos). length e - pos)")
  show "wf (measure (\<lambda>(e, pos). length e - pos))" by simp
next
  fix escaped :: string and pos i
  assume "str_find escaped dquote pos = Some i"
  then have "pos \<le> i" "i < length escaped" by (rule str_find_SomeD)+
  then show "((take i escaped @ [dquote, dquote] @ drop (Suc i) escaped, i + 2), escaped, pos)
               \<in> measure (\<lambda>(e, pos). length e - pos)"
    by simp
qed

declare quoteLoop.simps [simp del]

definition escapeCSV_mt :: "string \<Rightarrow> string" where
  "escapeCSV_mt str =
     (if \<exists>c \<in> set str. c \<in> {comma, dquote, LF, CR}
      then [dquote] @ quoteLoop str 0 @ [dquote]
      else str)"

text \<open>
  The reader's side of the round trip, after RFC 4180: a field that opens with a quote
  runs to its closing quote, two quotes inside standing for one; any other field is
  taken as it is and holds no comma, quote or line break.
\<close>

fun unquote :: "string \<Rightarrow> string option" where
  "unquote [] = None"
| "unquote [c] = (if c = dquote then Some [] else None)"
| "unquote (c # d # cs) =
     (if c = dquote
      then (if d = dquote then map_option (Cons dquote) (unquote cs) else None)
      else map_option (Cons c) (unquote (d # cs)))"

definition parseField :: "string \<Rightarrow> string option" where
  "parseField s =
     (case s of
        [] \<Rightarrow> Some []
      | c # cs \<Rightarrow>
          if c = dquote then unquote cs
          else if \<exists>x \<in> set s. x \<in> {comma, dquote, LF, CR} then None
          else Some s)"

text \<open>A string with each of its quotes written twice.\<close>

fun doubled :: "string \<Rightarrow> string" where
  "doubled [] = []"
| "doubled (c # cs) = (if c = dquote then [dquote, dquote] else [c]) @ doubled cs"

section \<open>Configuration and filters\<close>

text \<open>
  The class \<^verbatim>\<open>FileAnalyzer\<close> holds the configuration and the running totals in one
  object; the embedding keeps them in two records. The multithreaded variant adds the
  worker count to the first and the set of claimed directories to the second.
\<close>

record config =
  excludeDirs :: "path list"
  includeTypes :: "string set"
  showHidden :: bool
  sizeThreshold :: SizeThreshold

record config_mt = config +
  numThreads :: nat

definition newConfig :: "bool \<Rightarrow> config" where
  "newConfig sh = \<lparr>excludeDirs = [], includeTypes = {}, showHidden = sh,
                    sizeThreshold = defaultThreshold\<rparr>"

definition addExcludeDir :: "string \<Rightarrow> 'a config_scheme \<Rightarrow> 'a config_scheme" where
  "addExcludeDir dir cfg = cfg\<lparr>excludeDirs := excludeDirs cfg @ [dir]\<rparr>"

definition addIncludeType :: "string \<Rightarrow> 'a config_scheme \<Rightarrow> 'a config_scheme" where
  "addIncludeType t cfg =
     cfg\<lparr>includeTypes := insert (if t = [] then ''[no extension]'' else t) (includeTypes cfg)\<rparr>"

text \<open>The loop of \<^verbatim>\<open>main\<close> that forwards the \<^verbatim>\<open>-t\<close> arguments.\<close>

definition forwardIncludeTypes :: "string list \<Rightarrow> 'a config_scheme \<Rightarrow> 'a config_scheme" where
  "forwardIncludeTypes ts cfg =
     fold (\<lambda>t. addIncludeType (if t = [] then ''[no extension]'' else t)) ts cfg"

definition setSizeThreshold :: "SizeThreshold \<Rightarrow> 'a config_scheme \<Rightarrow> 'a config_scheme option" where
  "setSizeThreshold t cfg = (if \<not> isValid t then None else Some (cfg\<lparr>sizeThreshold := t\<rparr>))"

definition setThreadCount :: "nat \<Rightarrow> 'a config_mt_scheme \<Rightarrow> 'a config_mt_scheme" where
  "setThreadCount threads cfg = cfg\<lparr>numThreads := (if threads > 0 then threads else 1)\<rparr>"

definition shouldInclude :: "'a config_scheme \<Rightarrow> string \<Rightarrow> bool" where
  "shouldInclude cfg fileType \<longleftrightarrow> (if includeTypes cfg = {} then True else fileType \<in> includeTypes cfg)"

definition isWithinSizeThreshold :: "'a config_scheme \<Rightarrow> size_t \<Rightarrow> bool" where
  "isWithinSizeThreshold cfg sz \<longleftrightarrow>
     sz \<ge> minSize (sizeThreshold cfg) \<and> sz \<le> maxSize (sizeThreshold cfg)"

text \<open>
  \<^verbatim>\<open>std::filesystem::equivalent\<close> asks the file system; it is a parameter \<open>eqv\<close> of the
  model, \<open>None\<close> when the call throws \<^verbatim>\<open>filesystem_error\<close>.
\<close>

type_synonym equivalent = "path \<Rightarrow> path \<Rightarrow> bool option"

text \<open>The first loop of \<^verbatim>\<open>shouldExclude\<close> in \<^verbatim>\<open>da.cpp\<close>; \<open>None\<close> when it throws.\<close>

fun excludeLoop :: "equivalent \<Rightarrow> path \<Rightarrow> path list \<Rightarrow> bool option" where
  "excludeLoop eqv p [] = Some False"
| "excludeLoop eqv p (dir # dirs) =
     (case eqv p dir of
        None \<Rightarrow> None
      | Some True \<Rightarrow> Some True
      | Some False \<Rightarrow>
          (case eqv (parent_path p) dir of
             None \<Rightarrow> None
           | Some True \<Rightarrow> Some True
           | Some False \<Rightarrow>
               if prefix (dir @ ''/'') p then Some True else excludeLoop eqv p dirs))"

definition shouldExclude :: "equivalent \<Rightarrow> 'a config_scheme \<Rightarrow> path \<Rightarrow> bool" where
  "shouldExclude eqv cfg p =
     (case excludeLoop eqv p (excludeDirs cfg) of
        Some b \<Rightarrow> b
      | None \<Rightarrow> list_ex (\<lambda>dir. prefix (dir @ ''/'') p) (excludeDirs cfg))"

text \<open>\<^verbatim>\<open>shouldExclude\<close> of the multithreaded variant: the string tests first, a throwing
  equivalence test counts as no match.\<close>

fun shouldExclude_mt_loop :: "equivalent \<Rightarrow> path \<Rightarrow> path list \<Rightarrow> bool" where
  "shouldExclude_mt_loop eqv p [] = False"
| "shouldExclude_mt_loop eqv p (dir # dirs) =
     (if p = dir \<or> prefix (dir @ ''/'') p then True
      else case eqv p dir of
        Some True \<Rightarrow> True
      | None \<Rightarrow> shouldExclude_mt_loop eqv p dirs
      | Some False \<Rightarrow>
          (case eqv (parent_path p) dir of
             Some True \<Rightarrow> True
           | _ \<Rightarrow> shouldExclude_mt_loop eqv p dirs))"

definition shouldExclude_mt :: "equivalent \<Rightarrow> 'a config_scheme \<Rightarrow> path \<Rightarrow> bool" where
  "shouldExclude_mt eqv cfg p = shouldExclude_mt_loop eqv p (excludeDirs cfg)"

text \<open>\<^verbatim>\<open>path.filename().string()[0] == '.'\<close>; the character of an empty name is NUL.\<close>

definition startsWithDot :: "path \<Rightarrow> bool" where
  "startsWithDot p = (case filename p of [] \<Rightarrow> False | c # _ \<Rightarrow> c = CHR ''.'')"

section \<open>The file system\<close>

text \<open>
  The tree under the analysed directory, as the directory iterators deliver it. A file
  is regular (with the result of \<^verbatim>\<open>file_size\<close>, \<open>None\<close> when that query fails), a
  directory, or neither; \<^verbatim>\<open>is_directory\<close> and \<^verbatim>\<open>is_regular_file\<close> follow symbolic
  links, so a link counts as what it points to. A directory carries its canonical
  identity (its device and inode numbers, as one number), whether the entry is a
  symbolic link to it, and its entries in the order of iteration. \<open>Unreadable\<close> stands
  for an entry whose status query throws \<^verbatim>\<open>filesystem_error\<close>. A directory that cannot
  be opened has no entries: both analyzers construct the iterator with an error code and
  \<^verbatim>\<open>skip_permission_denied\<close>. The increment of an iterator is taken to succeed.
\<close>

datatype node =
    RegularFile "size_t option"
  | Directory nat bool "(string \<times> node) list"
  | Other
  | Unreadable

fun listing :: "node \<Rightarrow> (string \<times> node) list" where
  "listing (Directory i l es) = es"
| "listing _ = []"

section \<open>The sequential analyzer\<close>

record analysis =
  stats :: "string \<rightharpoonup> FileTypeStats"
  totalFiles :: size_t
  totalSize :: size_t
  hiddenFiles :: size_t
  hiddenSize :: size_t

definition newAnalysis :: analysis where
  "newAnalysis = \<lparr>stats = Map.empty, totalFiles = 0, totalSize = 0, hiddenFiles = 0, hiddenSize = 0\<rparr>"

text \<open>
  \<^verbatim>\<open>calculateDirectorySize\<close>: the sizes of the regular files under a directory, summed
  in \<^verbatim>\<open>size_t\<close>. The recursive iterator does not enter a directory through a symbolic
  link; \<open>None\<close> when \<^verbatim>\<open>entry.file_size()\<close> or the iteration throws.
\<close>

fun calculateDirectorySize :: "node \<Rightarrow> size_t option"
  and entriesSize :: "(string \<times> node) list \<Rightarrow> size_t option" where
  "calculateDirectorySize (Directory i l es) = entriesSize es"
| "calculateDirectorySize (RegularFile s) = None"
| "calculateDirectorySize Other = None"
| "calculateDirectorySize Unreadable = None"
| "entriesSize [] = Some 0"
| "entriesSize ((name, RegularFile None) # es) = None"
| "entriesSize ((name, RegularFile (Some sz)) # es) = map_option (\<lambda>r. sz + r) (entriesSize es)"
| "entriesSize ((name, Directory i l sub) # es) =
     (if l then entriesSize es
      else case calculateDirectorySize (Directory i l sub) of
             None \<Rightarrow> None
           | Some a \<Rightarrow> map_option (\<lambda>r. a + r) (entriesSize es))"
| "entriesSize ((name, Other) # es) = entriesSize es"
| "entriesSize ((name, Unreadable) # es) = None"

text \<open>\<^verbatim>\<open>stats[k].update(sz)\<close>: the map gets the key with zero counters when it is new.\<close>

definition statsUpdate :: "string \<Rightarrow> size_t \<Rightarrow> 'a analysis_scheme \<Rightarrow> error option \<times> 'a analysis_scheme" where
  "statsUpdate k sz st =
     (let r = update sz (case stats st k of None \<Rightarrow> noStats | Some f \<Rightarrow> f)
      in (fst r, st\<lparr>stats := (stats st)(k \<mapsto> snd r)\<rparr>))"

text \<open>
  The body of the loop of \<^verbatim>\<open>analyze\<close> for a regular file: the \<^verbatim>\<open>try\<close> block. The
  first component is the error code \<open>ec\<close> as the iteration leaves it; an exception of
  \<^verbatim>\<open>update\<close> is caught by the handler of the block, which goes on to the next entry.
\<close>

definition analyzeFile :: "'c config_scheme \<Rightarrow> path \<Rightarrow> size_t option \<Rightarrow> 'a analysis_scheme \<Rightarrow> bool \<times> 'a analysis_scheme" where
  "analyzeFile cfg p fsz st =
     (case fsz of
        None \<Rightarrow> (True, st)
      | Some sz \<Rightarrow>
          if \<not> isWithinSizeThreshold cfg sz then (False, st)
          else let fileType = getFileType p in
            if \<not> shouldInclude cfg fileType then (False, st)
            else if startsWithDot p \<and> \<not> showHidden cfg
            then (False, st\<lparr>hiddenFiles := hiddenFiles st + 1,
                             hiddenSize := hiddenSize st + sz,
                             totalSize := totalSize st + sz\<rparr>)
            else (case statsUpdate fileType sz st of
                    (Some e, st') \<Rightarrow> (False, st')
                  | (None, st') \<Rightarrow>
                      (False, st'\<lparr>totalFiles := totalFiles st' + 1,
                                   totalSize := totalSize st' + sz\<rparr>)))"

text \<open>The \<^verbatim>\<open>.git\<close> branch of the loop; it stands outside the \<^verbatim>\<open>try\<close> block.\<close>

definition analyzeGit :: "'c config_scheme \<Rightarrow> node \<Rightarrow> 'a analysis_scheme \<Rightarrow> error + 'a analysis_scheme" where
  "analyzeGit cfg nd st =
     (case calculateDirectorySize nd of
        None \<Rightarrow> Inl FilesystemError
      | Some gitSize \<Rightarrow>
          if showHidden cfg
          then (case statsUpdate ''.git'' gitSize st of
                  (Some e, st') \<Rightarrow> Inl e
                | (None, st') \<Rightarrow>
                    Inr (st'\<lparr>totalFiles := totalFiles st' + 1,
                              totalSize := totalSize st' + gitSize\<rparr>))
          else Inr (st\<lparr>hiddenFiles := hiddenFiles st + 1,
                        hiddenSize := hiddenSize st + gitSize,
                        totalSize := totalSize st + gitSize\<rparr>))"

text \<open>
  \<^verbatim>\<open>analyze\<close>. The loop shares one error code \<open>ec\<close> between its iterations: it is
  set when \<^verbatim>\<open>file_size\<close> fails, and an iteration that finds it set clears it and
  goes on to the next entry. An exception outside the \<^verbatim>\<open>try\<close> block leaves \<^verbatim>\<open>analyze\<close>
  and ends the run in \<^verbatim>\<open>main\<close>.
\<close>

fun analyze :: "equivalent \<Rightarrow> 'c config_scheme \<Rightarrow> path \<Rightarrow> node \<Rightarrow> 'a analysis_scheme \<Rightarrow> error + 'a analysis_scheme"
  and analyzeLoop :: "equivalent \<Rightarrow> 'c config_scheme \<Rightarrow> path \<Rightarrow> (string \<times> node) list \<Rightarrow> bool \<Rightarrow> 'a analysis_scheme \<Rightarrow> error + 'a analysis_scheme" where
  "analyze eqv cfg p (Directory i l es) st = analyzeLoop eqv cfg p es False st"
| "analyze eqv cfg p (RegularFile s) st = Inr st"
| "analyze eqv cfg p Other st = Inr st"
| "analyze eqv cfg p Unreadable st = Inr st"
| "analyzeLoop eqv cfg d [] ec st = Inr st"
| "analyzeLoop eqv cfg d ((name, nd) # es) ec st =
     (if ec then analyzeLoop eqv cfg d es False st
      else if shouldExclude eqv cfg (join d name) then analyzeLoop eqv cfg d es False st
      else case nd of
        Unreadable \<Rightarrow> Inl FilesystemError
      | Directory i l sub \<Rightarrow>
          if filename (join d name) = ''.git''
          then (case analyzeGit cfg nd st of
                  Inl e \<Rightarrow> Inl e
                | Inr st' \<Rightarrow> analyzeLoop eqv cfg d es False st')
          else (case analyze eqv cfg (join d name) (Directory i l sub) st of
                  Inl e \<Rightarrow> Inl e
                | Inr st' \<Rightarrow> analyzeLoop eqv cfg d es False st')
      | RegularFile fsz \<Rightarrow>
          (case analyzeFile cfg (join d name) fsz st of
             (ec', st') \<Rightarrow> analyzeLoop eqv cfg d es ec' st')
      | Other \<Rightarrow> analyzeLoop eqv cfg d es False st)"

section \<open>The multithreaded analyzer\<close>

text \<open>
  The counters of the multithreaded variant are atomic, the map of per-type statistics
  is guarded by \<^verbatim>\<open>statsMutex\<close> and the set of claimed directories by
  \<^verbatim>\<open>processedDirsMutex\<close>. The field \<open>listed\<close> is a history variable, not a member of
  the class: it records every directory whose listing was begun, by the path string it
  was claimed under and its canonical identity.
\<close>

record analysis_mt = analysis +
  processedDirs :: "string set"
  listed :: "(path \<times> nat) multiset"

text \<open>
  The atomic actions of a worker on the shared totals. \<open>UpdateStats\<close> is the block
  under \<^verbatim>\<open>statsMutex\<close>: \<^verbatim>\<open>stats[k].update(sz); totalFiles++\<close>.
\<close>

datatype action =
    AddTotalSize size_t
  | IncHiddenFiles
  | AddHiddenSize size_t
  | UpdateStats string size_t

fun perform :: "action \<Rightarrow> 'a analysis_scheme \<Rightarrow> 'a analysis_scheme" where
  "perform (AddTotalSize sz) st = st\<lparr>totalSize := totalSize st + sz\<rparr>"
| "perform IncHiddenFiles st = st\<lparr>hiddenFiles := hiddenFiles st + 1\<rparr>"
| "perform (AddHiddenSize sz) st = st\<lparr>hiddenSize := hiddenSize st + sz\<rparr>"
| "perform (UpdateStats k sz) st =
     st\<lparr>stats := (stats st)(k \<mapsto> update_mt sz (case stats st k of None \<Rightarrow> noStats | Some f \<Rightarrow> f)),
        totalFiles := totalFiles st + 1\<rparr>"

text \<open>
  What a call of \<^verbatim>\<open>processDirectory\<close> does, as a task: atomic actions, the claim of
  a directory (the test and the insertion under \<^verbatim>\<open>processedDirsMutex\<close>, then the rest
  when the path was new), tasks one after the other, and the fan-out: one
  \<^verbatim>\<open>std::async\<close> task per subdirectory, then the wait for all of them. Starting a
  thread is taken to succeed.
\<close>

datatype task =
    Done
  | Atomic action
  | Claim path nat task
  | Seq "task list"
  | Async "task list"

definition claimDir :: "path \<Rightarrow> nat \<Rightarrow> analysis_mt \<Rightarrow> analysis_mt" where
  "claimDir p i s = s\<lparr>processedDirs := insert p (processedDirs s), listed := add_mset (p, i) (listed s)\<rparr>"

text \<open>
  One step of the analyzer: one atomic action of one worker. The tasks of a fan-out
  interleave in any order; the parent goes on when all of them are done.
\<close>

inductive step :: "task \<Rightarrow> analysis_mt \<Rightarrow> task \<Rightarrow> analysis_mt \<Rightarrow> bool" where
  atomic: "step (Atomic a) s Done (perform a s)"
| claim_new: "p \<notin> processedDirs s \<Longrightarrow> step (Claim p i t) s t (claimDir p i s)"
| claim_seen: "p \<in> processedDirs s \<Longrightarrow> step (Claim p i t) s Done s"
| seq_nil: "step (Seq []) s Done s"
| seq_next: "step (Seq (Done # ts)) s (Seq ts) s"
| seq_step: "step t s t' s' \<Longrightarrow> step (Seq (t # ts)) s (Seq (t' # ts)) s'"
| async_step: "step t s t' s' \<Longrightarrow> step (Async (ts @ t # us)) s (Async (ts @ t' # us)) s'"
| async_join: "set ts \<subseteq> {Done} \<Longrightarrow> step (Async ts) s Done s"

inductive runs :: "task \<Rightarrow> analysis_mt \<Rightarrow> analysis_mt \<Rightarrow> bool" where
  finished: "runs Done s s"
| after: "step t s t' s' \<Longrightarrow> runs t' s' s'' \<Longrightarrow> runs t s s''"

text \<open>The run in which every task runs to its end before the next starts.\<close>

fun exec :: "task \<Rightarrow> analysis_mt \<Rightarrow> analysis_mt" where
  "exec Done s = s"
| "exec (Atomic a) s = perform a s"
| "exec (Claim p i t) s = (if p \<in> processedDirs s then s else exec t (claimDir p i s))"
| "exec (Seq ts) s = fold exec ts s"
| "exec (Async ts) s = fold exec ts s"

fun identity :: "node \<Rightarrow> nat" where
  "identity (Directory i l es) = i"
| "identity _ = 0"

text \<open>
  The size of a \<^verbatim>\<open>.git\<close> directory in the multithreaded variant: \<^verbatim>\<open>file_size\<close> with an
  error code returns \<^verbatim>\<open>static_cast<uintmax_t>(-1)\<close> on failure, which is added like a
  size; \<open>None\<close> when the iteration throws.
\<close>

fun gitSize_mt :: "node \<Rightarrow> size_t option"
  and gitEntriesSize_mt :: "(string \<times> node) list \<Rightarrow> size_t option" where
  "gitSize_mt (Directory i l es) = gitEntriesSize_mt es"
| "gitSize_mt (RegularFile s) = Some 0"
| "gitSize_mt Other = Some 0"
| "gitSize_mt Unreadable = Some 0"
| "gitEntriesSize_mt [] = Some 0"
| "gitEntriesSize_mt ((name, RegularFile None) # es) = map_option (\<lambda>r. SIZE_MAX + r) (gitEntriesSize_mt es)"
| "gitEntriesSize_mt ((name, RegularFile (Some sz)) # es) = map_option (\<lambda>r. sz + r) (gitEntriesSize_mt es)"
| "gitEntriesSize_mt ((name, Directory i l sub) # es) =
     (if l then gitEntriesSize_mt es
      else case gitSize_mt (Directory i l sub) of
             None \<Rightarrow> None
           | Some a \<Rightarrow> map_option (\<lambda>r. a + r) (gitEntriesSize_mt es))"
| "gitEntriesSize_mt ((name, Other) # es) = gitEntriesSize_mt es"
| "gitEntriesSize_mt ((name, Unreadable) # es) = None"

definition processGit :: "'c config_scheme \<Rightarrow> node \<Rightarrow> task" where
  "processGit cfg nd =
     (case gitSize_mt nd of
        None \<Rightarrow> Done
      | Some gitSize \<Rightarrow>
          Seq (Atomic (AddTotalSize gitSize) #
               (if showHidden cfg then [Atomic (UpdateStats ''.git'' gitSize)]
                else [Atomic IncHiddenFiles, Atomic (AddHiddenSize gitSize)])))"

definition processFile :: "'c config_scheme \<Rightarrow> path \<Rightarrow> size_t option \<Rightarrow> task" where
  "processFile cfg p fsz =
     (case fsz of
        None \<Rightarrow> Done
      | Some sz \<Rightarrow>
          if \<not> isWithinSizeThreshold cfg sz then Done
          else let fileType = getFileType p in
            if \<not> shouldInclude cfg fileType then Done
            else Seq (Atomic (AddTotalSize sz) #
                      (if startsWithDot p \<and> \<not> showHidden cfg
                       then [Atomic IncHiddenFiles, Atomic (AddHiddenSize sz)]
                       else [Atomic (UpdateStats fileType sz)])))"

text \<open>
  The first loop of \<^verbatim>\<open>processDirectory\<close>: the \<^verbatim>\<open>.git\<close> directories are accounted
  for on the spot, the regular files and the other directories are collected. An
  exception ends the loop; what was collected before it is still processed.
\<close>

fun scanEntries :: "equivalent \<Rightarrow> 'c config_scheme \<Rightarrow> path \<Rightarrow> (string \<times> node) list \<Rightarrow>
    task list \<times> (path \<times> size_t option) list \<times> (path \<times> node) list" where
  "scanEntries eqv cfg d [] = ([], [], [])"
| "scanEntries eqv cfg d ((name, nd) # es) =
     (if shouldExclude_mt eqv cfg (join d name) then scanEntries eqv cfg d es
      else case nd of
        Unreadable \<Rightarrow> ([], [], [])
      | Directory i l sub \<Rightarrow>
          (case scanEntries eqv cfg d es of
             (gits, files, subDirs) \<Rightarrow>
               if filename (join d name) = ''.git''
               then (processGit cfg nd # gits, files, subDirs)
               else (gits, files, (join d name, nd) # subDirs))
      | RegularFile fsz \<Rightarrow>
          (case scanEntries eqv cfg d es of
             (gits, files, subDirs) \<Rightarrow> (gits, (join d name, fsz) # files, subDirs))
      | Other \<Rightarrow> scanEntries eqv cfg d es)"

lemma scanEntries_subDirs:
  "x \<in> set (snd (snd (scanEntries eqv cfg d es))) \<Longrightarrow> snd x \<in> snd ` set es"
  by (induction es) (auto split: if_splits node.splits prod.splits)

lemma size_entry: "(n, c) \<in> set es \<Longrightarrow> size c < size (Directory i l es)"
  by (induction es) auto

function processDirectory :: "equivalent \<Rightarrow> 'c config_mt_scheme \<Rightarrow> path \<Rightarrow> node \<Rightarrow> task" where
  "processDirectory eqv cfg dirPath nd =
     Claim dirPath (identity nd)
       (Seq (fst (scanEntries eqv cfg dirPath (listing nd)) @
             map (\<lambda>f. processFile cfg (fst f) (snd f))
                 (fst (snd (scanEntries eqv cfg dirPath (listing nd)))) @
             [if numThreads cfg > 1 \<and> length (snd (snd (scanEntries eqv cfg dirPath (listing nd)))) > 1
              then Async (map (\<lambda>sd. processDirectory eqv cfg (fst sd) (snd sd))
                              (snd (snd (scanEntries eqv cfg dirPath (listing nd)))))
              else Seq (map (\<lambda>sd. processDirectory eqv cfg (fst sd) (snd sd))
                            (snd (snd (scanEntries eqv cfg dirPath (listing nd)))))]))"
  by pat_completeness auto
termination
proof (relation "measure (\<lambda>(eqv, cfg, p, nd). size nd)")
  show "wf (measure (\<lambda>(eqv, cfg, p, nd). size nd))" by simp
next
  fix eqv :: equivalent and cfg :: "'c config_mt_scheme" and dirPath nd and sd :: "path \<times> node"
  assume "sd \<in> set (snd (snd (scanEntries eqv cfg dirPath (listing nd))))"
  then have m: "snd sd \<in> snd ` set (listing nd)" by (rule scanEntries_subDirs)
  then obtain i l es where nd: "nd = Directory i l es" by (cases nd) auto
  from m nd obtain n where "(n, snd sd) \<in> set es" by auto
  then have "size (snd sd) < size nd" unfolding nd by (rule size_entry)
  then show "((eqv, cfg, fst sd, snd sd), eqv, cfg, dirPath, nd) \<in> measure (\<lambda>(eqv, cfg, p, nd). size nd)"
    by (cases sd) simp
next
  fix eqv :: equivalent and cfg :: "'c config_mt_scheme" and dirPath nd and sd :: "path \<times> node"
  assume "sd \<in> set (snd (snd (scanEntries eqv cfg dirPath (listing nd))))"
  then have m: "snd sd \<in> snd ` set (listing nd)" by (rule scanEntries_subDirs)
  then obtain i l es where nd: "nd = Directory i l es" by (cases nd) auto
  from m nd obtain n where "(n, snd sd) \<in> set es" by auto
  then have "size (snd sd) < size nd" unfolding nd by (rule size_entry)
  then show "((eqv, cfg, fst sd, snd sd), eqv, cfg, dirPath, nd) \<in> measure (\<lambda>(eqv, cfg, p, nd). size nd)"
    by (cases sd) simp
qed

declare processDirectory.simps [simp del]

definition reset :: "analysis_mt \<Rightarrow> analysis_mt" where
  "reset s = s\<lparr>stats := Map.empty, totalFiles := 0, totalSize := 0, hiddenFiles := 0,
               hiddenSize := 0, processedDirs := {}, listed := {#}\<rparr>"

definition newAnalysis_mt :: analysis_mt where
  "newAnalysis_mt = analysis.extend newAnalysis (analysis_mt.fields {} {#})"

text \<open>A run of \<^verbatim>\<open>analyze\<close> on an analyzer in state \<open>s\<close>, ending in \<open>s'\<close>.\<close>

definition analyze_mt :: "equivalent \<Rightarrow> 'c config_mt_scheme \<Rightarrow> path \<Rightarrow> node \<Rightarrow>
    analysis_mt \<Rightarrow> analysis_mt \<Rightarrow> bool" where
  "analyze_mt eqv cfg p nd s s' \<longleftrightarrow> runs (processDirectory eqv cfg p nd) (reset s) s'"

section \<open>Classification of file names\<close>

lemma extension_cases:
  "extension p = [] \<or>
   (\<exists>b e. filename p = b @ CHR ''.'' # e \<and> b \<noteq> [] \<and> CHR ''.'' \<notin> set e \<and>
          extension p = CHR ''.'' # e)"
proof (cases "CHR ''.'' \<in> set (filename p)")
  case False
  then show ?thesis by (simp add: extension_def)
next
  case True
  then obtain b e where f: "filename p = b @ CHR ''.'' # e" "CHR ''.'' \<notin> set e"
    by (meson split_list_last)
  have tw: "takeWhile (\<lambda>c. c \<noteq> CHR ''.'') (rev (filename p)) = rev e"
    using f by (auto simp: takeWhile_tail)
  show ?thesis
  proof (cases "b = []")
    case True
    then show ?thesis using f tw by (simp add: extension_def Let_def)
  next
    case False
    then show ?thesis using f tw by (auto simp: extension_def Let_def)
  qed
qed

lemma extension_shorter: "extension p \<noteq> [] \<Longrightarrow> length (extension p) < length (filename p)"
  using extension_cases[of p] by auto

lemma extension_dotfile:
  assumes "filename p = CHR ''.'' # r" "CHR ''.'' \<notin> set r"
  shows "extension p = []"
proof (rule ccontr)
  assume "extension p \<noteq> []"
  with extension_cases[of p] obtain b e where
    be: "filename p = b @ CHR ''.'' # e" "b \<noteq> []" by auto
  then obtain b' where "b = CHR ''.'' # b'" using assms(1) by (cases b) auto
  with be assms show False by auto
qed

lemma tolower_dot: "tolower CHR ''.'' = CHR ''.''"
  by (simp add: tolower_def)

lemma safeToLower_Nil: "safeToLower s = [] \<longleftrightarrow> s = []"
  by (simp add: safeToLower_def)

lemma safeToLower_extension_hd:
  "extension p \<noteq> [] \<Longrightarrow> \<exists>e. safeToLower (extension p) = CHR ''.'' # e"
  using extension_cases[of p] by (auto simp: safeToLower_def tolower_dot)

lemma getFileType_eq:
  "getFileType p =
     (if p = [] \<or> filename p = [] then ''[invalid]''
      else if extension p \<noteq> [] then safeToLower (extension p)
      else if hd (filename p) = CHR ''.'' then ''[dotfile]''
      else ''[no extension]'')"
proof -
  have "filename p \<noteq> safeToLower (extension p)" if "filename p \<noteq> []"
  proof (cases "extension p = []")
    case True
    with that show ?thesis by (simp add: safeToLower_def)
  next
    case False
    then have "length (safeToLower (extension p)) < length (filename p)"
      using extension_shorter[of p] by (simp add: safeToLower_def)
    then show ?thesis by auto
  qed
  then show ?thesis by (auto simp: getFileType_def Let_def safeToLower_Nil)
qed

lemma tolower_upper:
  "map tolower ''ABCDEFGHIJKLMNOPQRSTUVWXYZ'' = ''abcdefghijklmnopqrstuvwxyz''"
  by code_simp

lemma tolower_other: "c \<notin> set ''ABCDEFGHIJKLMNOPQRSTUVWXYZ'' \<Longrightarrow> tolower c = c"
proof (rule ccontr)
  assume notin: "c \<notin> set ''ABCDEFGHIJKLMNOPQRSTUVWXYZ''" and "tolower c \<noteq> c"
  then have "65 \<le> (of_char c :: nat) \<and> (of_char c :: nat) \<le> 90"
    by (simp add: tolower_def split: if_splits)
  then have m: "(of_char c :: nat) \<in> {65..90}"
    by simp
  have all: "\<forall>n \<in> {65..90::nat}. char_of n \<in> set ''ABCDEFGHIJKLMNOPQRSTUVWXYZ''"
    by code_simp
  have "char_of (of_char c :: nat) \<in> set ''ABCDEFGHIJKLMNOPQRSTUVWXYZ''"
    by (rule bspec[OF all m])
  then have "c \<in> set ''ABCDEFGHIJKLMNOPQRSTUVWXYZ''"
    by (simp only: char_of_char)
  with notin show False by (rule notE)
qed

text \<open>
  Claim C7. \<open>getFileType\<close> returns \<^verbatim>\<open>[invalid]\<close> when the path or its file name is
  empty; otherwise the extension, lower-cased byte by byte, when the name has one;
  otherwise \<^verbatim>\<open>[dotfile]\<close> when the name starts with a period and \<^verbatim>\<open>[no extension]\<close>
  when it does not. A name that is a period followed by no further period is a dotfile;
  an extension starts at the last period of the name, which is not its first character,
  and keeps that period. Lower-casing maps the letters A to Z to a to z and leaves every
  other byte as it is.
\<close>

theorem getFileType_classification:
  "getFileType p =
     (if p = [] \<or> filename p = [] then ''[invalid]''
      else if extension p \<noteq> [] then safeToLower (extension p)
      else if hd (filename p) = CHR ''.'' then ''[dotfile]''
      else ''[no extension]'')
   \<and> (\<forall>r. filename p = CHR ''.'' # r \<and> CHR ''.'' \<notin> set r \<longrightarrow> getFileType p = ''[dotfile]'')
   \<and> (extension p \<noteq> [] \<longrightarrow>
        (\<exists>b e. filename p = b @ CHR ''.'' # e \<and> b \<noteq> [] \<and> CHR ''.'' \<notin> set e \<and>
               getFileType p = CHR ''.'' # safeToLower e))
   \<and> map tolower ''ABCDEFGHIJKLMNOPQRSTUVWXYZ'' = ''abcdefghijklmnopqrstuvwxyz''
   \<and> (\<forall>c. c \<notin> set ''ABCDEFGHIJKLMNOPQRSTUVWXYZ'' \<longrightarrow> tolower c = c)"
proof (intro conjI allI impI)
  show "getFileType p =
     (if p = [] \<or> filename p = [] then ''[invalid]''
      else if extension p \<noteq> [] then safeToLower (extension p)
      else if hd (filename p) = CHR ''.'' then ''[dotfile]''
      else ''[no extension]'')"
    by (rule getFileType_eq)
next
  fix r assume a: "filename p = CHR ''.'' # r \<and> CHR ''.'' \<notin> set r"
  then have "extension p = []" using extension_dotfile by blast
  moreover have "p \<noteq> []" using a by (auto simp: filename_def)
  ultimately show "getFileType p = ''[dotfile]''" using a by (simp add: getFileType_eq)
next
  assume ne: "extension p \<noteq> []"
  with extension_cases[of p] obtain b e where
    be: "filename p = b @ CHR ''.'' # e" "b \<noteq> []" "CHR ''.'' \<notin> set e" "extension p = CHR ''.'' # e"
    by auto
  have "p \<noteq> []" using be by (auto simp: filename_def)
  then have "getFileType p = CHR ''.'' # safeToLower e"
    using be by (simp add: getFileType_eq safeToLower_def tolower_dot)
  with be show "\<exists>b e. filename p = b @ CHR ''.'' # e \<and> b \<noteq> [] \<and> CHR ''.'' \<notin> set e \<and>
               getFileType p = CHR ''.'' # safeToLower e" by blast
next
  show "map tolower ''ABCDEFGHIJKLMNOPQRSTUVWXYZ'' = ''abcdefghijklmnopqrstuvwxyz''"
    by (rule tolower_upper)
next
  fix c assume "c \<notin> set ''ABCDEFGHIJKLMNOPQRSTUVWXYZ''"
  then show "tolower c = c" by (rule tolower_other)
qed

theorem getFileType_classification_witness:
  "getFileType ''src/.env'' = ''[dotfile]''
   \<and> getFileType ''src/Main.CPP'' = ''.cpp''
   \<and> getFileType ''src/Makefile'' = ''[no extension]''
   \<and> getFileType ''src/'' = ''[invalid]''"
proof -
  note eq = getFileType_classification[THEN conjunct1]
  note dot = getFileType_classification[THEN conjunct2, THEN conjunct1, rule_format]
  have f: "filename ''src/.env'' = ''.env''" "filename ''src/Main.CPP'' = ''Main.CPP''"
    "filename ''src/Makefile'' = ''Makefile''" "filename ''src/'' = []"
    by (simp_all add: filename_def)
  have e: "extension ''src/Main.CPP'' = ''.CPP''" "extension ''src/Makefile'' = []"
    by (simp_all add: extension_def f)
  have l: "safeToLower ''.CPP'' = ''.cpp''" by code_simp
  have a: "getFileType ''src/.env'' = ''[dotfile]''"
    by (rule dot[of "''src/.env''" "''env''"]) (simp add: f)
  have b: "getFileType ''src/Main.CPP'' = ''.cpp''"
    by (subst eq) (simp add: f e l)
  have c: "getFileType ''src/Makefile'' = ''[no extension]''"
    by (subst eq) (simp add: f e)
  have d: "getFileType ''src/'' = ''[invalid]''"
    by (subst eq) (simp add: f)
  from a b c d show ?thesis by simp
qed

section \<open>The include-type filter\<close>

lemma getFileType_no_extension_iff:
  "getFileType p = ''[no extension]'' \<longleftrightarrow>
     filename p \<noteq> [] \<and> hd (filename p) \<noteq> CHR ''.'' \<and> extension p = []"
proof -
  have "p \<noteq> []" if "filename p \<noteq> []" using that by (auto simp: filename_def)
  moreover have "safeToLower (extension p) \<noteq> ''[no extension]''" if "extension p \<noteq> []"
    using safeToLower_extension_hd[OF that] by auto
  ultimately show ?thesis by (auto simp: getFileType_eq)
qed

lemma includeTypes_forward:
  "includeTypes (forwardIncludeTypes ts cfg) =
     includeTypes cfg \<union> (\<lambda>t. if t = [] then ''[no extension]'' else t) ` set ts"
  unfolding forwardIncludeTypes_def
  by (induction ts arbitrary: cfg) (auto simp: addIncludeType_def)

text \<open>
  Claim C10. \<open>addIncludeType t\<close> inserts \<^verbatim>\<open>[no extension]\<close> into the include set when
  \<open>t\<close> is empty and \<open>t\<close> itself otherwise, and so does the loop of \<^verbatim>\<open>main\<close> that
  forwards the arguments. After an empty argument alone, the filter lets through
  exactly the files classified \<^verbatim>\<open>[no extension]\<close>: those whose name does not start
  with a period and has no extension.
\<close>

theorem addIncludeType_empty_is_no_extension:
  "includeTypes (addIncludeType t cfg) =
     insert (if t = [] then ''[no extension]'' else t) (includeTypes cfg)
   \<and> includeTypes (forwardIncludeTypes ts cfg) =
       includeTypes cfg \<union> (\<lambda>t. if t = [] then ''[no extension]'' else t) ` set ts
   \<and> (includeTypes cfg = {} \<longrightarrow>
        (shouldInclude (addIncludeType [] cfg) (getFileType p) \<longleftrightarrow>
           filename p \<noteq> [] \<and> hd (filename p) \<noteq> CHR ''.'' \<and> extension p = []))"
  by (auto simp: includeTypes_forward addIncludeType_def shouldInclude_def getFileType_no_extension_iff)

theorem addIncludeType_empty_is_no_extension_witness:
  "shouldInclude (addIncludeType [] (newConfig False)) (getFileType ''src/Makefile'')
   \<and> \<not> shouldInclude (addIncludeType [] (newConfig False)) (getFileType ''src/a.txt'')"
proof -
  note t = addIncludeType_empty_is_no_extension[THEN conjunct2, THEN conjunct2, rule_format]
  have f: "filename ''src/Makefile'' = ''Makefile''" "filename ''src/a.txt'' = ''a.txt''"
    by (simp_all add: filename_def)
  have e: "extension ''src/Makefile'' = []" "extension ''src/a.txt'' = ''.txt''"
    by (simp_all add: extension_def f)
  have i: "includeTypes (newConfig False) = {}" by (simp add: newConfig_def)
  show ?thesis
    by (simp add: t[OF i] f e)
qed

section \<open>Overflow of the per-type accumulator\<close>

lemma unat_SIZE_MAX: "unat SIZE_MAX = 2 ^ 64 - 1"
  by (simp add: SIZE_MAX_def unsigned_minus_1_eq_mask mask_eq_exp_minus_1)

lemma unat_bound: "unat (w :: size_t) < 18446744073709551616"
  using unsigned_less[where 'a = nat, of w] by simp

lemma count_max_iff: "(c :: size_t) = SIZE_MAX \<longleftrightarrow> unat c + 1 > unat SIZE_MAX"
proof -
  have "unat c < 2 ^ 64" using unat_bound[of c] by simp
  moreover have "c = SIZE_MAX \<longleftrightarrow> unat c = unat SIZE_MAX" by (simp add: word_unat_eq_iff)
  ultimately show ?thesis by (auto simp: unat_SIZE_MAX)
qed

lemma size_check_iff: "(t :: size_t) > SIZE_MAX - sz \<longleftrightarrow> unat t + unat sz > unat SIZE_MAX"
proof -
  have "sz \<le> SIZE_MAX" by (simp add: SIZE_MAX_def)
  then have "unat (SIZE_MAX - sz) = unat SIZE_MAX - unat sz" by (rule unat_sub)
  moreover have "unat sz \<le> unat SIZE_MAX" using unat_bound[of sz] by (simp add: unat_SIZE_MAX)
  ultimately show ?thesis by (auto simp: word_less_nat_alt)
qed

lemma unat_inc: "(c :: size_t) \<noteq> SIZE_MAX \<Longrightarrow> unat (c + 1) = unat c + 1"
  by (metis SIZE_MAX_def Suc_eq_plus1 add.commute add_eq_0_iff unatSuc)

lemma unat_add_fits: "\<not> (t :: size_t) > SIZE_MAX - sz \<Longrightarrow> unat (t + sz) = unat t + unat sz"
proof -
  assume "\<not> t > SIZE_MAX - sz"
  then have "unat t + unat sz \<le> unat SIZE_MAX" by (simp add: size_check_iff)
  then have "unat t + unat sz < 2 ^ LENGTH(64)" by (simp add: unat_SIZE_MAX)
  then show ?thesis by (rule unat_add_lem[THEN iffD1])
qed

text \<open>An analyzer whose \<^verbatim>\<open>.git\<close> entry has its byte total at the maximum.\<close>

definition fullStats :: analysis where
  "fullStats = \<lparr>stats = [''.git'' \<mapsto> \<lparr>ft_count = 5, ft_totalSize = SIZE_MAX\<rparr>],
                 totalFiles = 5, totalSize = SIZE_MAX, hiddenFiles = 0, hiddenSize = 0\<rparr>"

text \<open>
  Claim C6, as amended. \<^verbatim>\<open>FileTypeStats::update\<close> of \<^verbatim>\<open>da.cpp\<close> throws the overflow
  error exactly when the count is at its maximum or the total size plus the file size
  exceeds the maximum, and when it does not throw both additions are exact. Thrown for
  a \<^verbatim>\<open>.git\<close> directory, the error leaves \<^verbatim>\<open>analyze\<close> and ends the run; thrown for a
  regular file, it is caught by the handler of the file, which leaves the file out of
  \<open>totalFiles\<close> and \<open>totalSize\<close> and goes on. The multithreaded
  \<^verbatim>\<open>FileTypeStats::update\<close> has no check: both additions wrap modulo \<open>2 ^ 64\<close>.
\<close>

theorem update_overflow_checked:
  "fst (update sz f) =
     (if unat (ft_count f) + 1 > unat SIZE_MAX \<or> unat (ft_totalSize f) + unat sz > unat SIZE_MAX
      then Some OverflowError else None)
   \<and> (fst (update sz f) = None \<longrightarrow>
        unat (ft_count (snd (update sz f))) = unat (ft_count f) + 1 \<and>
        unat (ft_totalSize (snd (update sz f))) = unat (ft_totalSize f) + unat sz)
   \<and> fst (statsUpdate k sz st) = fst (update sz (case stats st k of None \<Rightarrow> noStats | Some g \<Rightarrow> g))
   \<and> (fst (statsUpdate ''.git'' sz st) = Some e \<and> showHidden cfg \<and>
        calculateDirectorySize nd = Some sz \<longrightarrow> analyzeGit cfg nd st = Inl e)
   \<and> (fst (statsUpdate (getFileType p) sz st) = Some e \<and> isWithinSizeThreshold cfg sz \<and>
        shouldInclude cfg (getFileType p) \<and> \<not> (startsWithDot p \<and> \<not> showHidden cfg) \<longrightarrow>
          fst (analyzeFile cfg p (Some sz) st) = False \<and>
          totalFiles (snd (analyzeFile cfg p (Some sz) st)) = totalFiles st \<and>
          totalSize (snd (analyzeFile cfg p (Some sz) st)) = totalSize st)
   \<and> unat (ft_count (update_mt sz f)) = (unat (ft_count f) + 1) mod 2 ^ 64
   \<and> unat (ft_totalSize (update_mt sz f)) = (unat (ft_totalSize f) + unat sz) mod 2 ^ 64"
proof (intro conjI)
  show "fst (update sz f) =
     (if unat (ft_count f) + 1 > unat SIZE_MAX \<or> unat (ft_totalSize f) + unat sz > unat SIZE_MAX
      then Some OverflowError else None)"
    using count_max_iff[of "ft_count f"] size_check_iff[of sz "ft_totalSize f"]
    by (simp add: update_def Let_def)
  show "fst (update sz f) = None \<longrightarrow>
        unat (ft_count (snd (update sz f))) = unat (ft_count f) + 1 \<and>
        unat (ft_totalSize (snd (update sz f))) = unat (ft_totalSize f) + unat sz"
    by (auto simp: update_def Let_def unat_inc unat_add_fits split: if_splits)
  show "fst (statsUpdate k sz st) = fst (update sz (case stats st k of None \<Rightarrow> noStats | Some g \<Rightarrow> g))"
    by (simp add: statsUpdate_def Let_def)
  show "fst (statsUpdate ''.git'' sz st) = Some e \<and> showHidden cfg \<and>
        calculateDirectorySize nd = Some sz \<longrightarrow> analyzeGit cfg nd st = Inl e"
    by (auto simp: analyzeGit_def split: prod.splits option.splits)
  show "fst (statsUpdate (getFileType p) sz st) = Some e \<and> isWithinSizeThreshold cfg sz \<and>
        shouldInclude cfg (getFileType p) \<and> \<not> (startsWithDot p \<and> \<not> showHidden cfg) \<longrightarrow>
          fst (analyzeFile cfg p (Some sz) st) = False \<and>
          totalFiles (snd (analyzeFile cfg p (Some sz) st)) = totalFiles st \<and>
          totalSize (snd (analyzeFile cfg p (Some sz) st)) = totalSize st"
    by (auto simp: analyzeFile_def statsUpdate_def Let_def split: prod.splits option.splits)
  show "unat (ft_count (update_mt sz f)) = (unat (ft_count f) + 1) mod 2 ^ 64"
    by (simp add: update_mt_def unat_word_ariths)
  show "unat (ft_totalSize (update_mt sz f)) = (unat (ft_totalSize f) + unat sz) mod 2 ^ 64"
    by (simp add: update_mt_def unat_word_ariths)
qed

theorem update_overflow_checked_witness:
  "fst (update 1 \<lparr>ft_count = 5, ft_totalSize = SIZE_MAX\<rparr>) = Some OverflowError
   \<and> fst (update 7 \<lparr>ft_count = 5, ft_totalSize = 10\<rparr>) = None
   \<and> unat (ft_totalSize (snd (update 7 \<lparr>ft_count = 5, ft_totalSize = 10\<rparr>))) = 17
   \<and> analyzeGit (newConfig True) (Directory 3 False [(''HEAD'', RegularFile (Some 1))]) fullStats
       = Inl OverflowError"
proof -
  note t = update_overflow_checked
  have a: "fst (update 1 \<lparr>ft_count = 5, ft_totalSize = SIZE_MAX\<rparr>) = Some OverflowError"
    by (subst t[THEN conjunct1]) (simp add: unat_SIZE_MAX)
  have b: "fst (update 7 \<lparr>ft_count = 5, ft_totalSize = 10\<rparr>) = None"
    by (subst t[THEN conjunct1]) (simp add: unat_SIZE_MAX)
  have c: "unat (ft_totalSize (snd (update 7 \<lparr>ft_count = 5, ft_totalSize = 10\<rparr>))) = 17"
    using t[where sz = 7 and f = "\<lparr>ft_count = 5, ft_totalSize = 10\<rparr>", THEN conjunct2, THEN conjunct1] b
    by simp
  have g: "fst (statsUpdate ''.git'' 1 fullStats) = Some OverflowError"
    by (subst t[THEN conjunct2, THEN conjunct2, THEN conjunct1])
       (simp add: fullStats_def update_def SIZE_MAX_def)
  have d: "analyzeGit (newConfig True) (Directory 3 False [(''HEAD'', RegularFile (Some 1))]) fullStats
       = Inl OverflowError"
    by (rule t[where sz = 1, THEN conjunct2, THEN conjunct2, THEN conjunct2, THEN conjunct1, THEN mp])
       (simp add: g newConfig_def)
  show ?thesis by (rule conjI[OF a conjI[OF b conjI[OF c d]]])
qed

text \<open>
  Against claim C6 as stated: in the multithreaded variant an update that exceeds the
  range of the counter wraps to zero and raises nothing.
\<close>

theorem update_mt_wraps:
  "update_mt 1 \<lparr>ft_count = 5, ft_totalSize = SIZE_MAX\<rparr> = \<lparr>ft_count = 6, ft_totalSize = 0\<rparr>"
  by (simp add: update_mt_def SIZE_MAX_def)

section \<open>CSV escaping\<close>

lemma doubled_append: "doubled (xs @ ys) = doubled xs @ doubled ys"
  by (induction xs) auto

lemma doubled_id: "dquote \<notin> set xs \<Longrightarrow> doubled xs = xs"
  by (induction xs) auto

lemma quoteLoop_doubled:
  "pos \<le> length s \<Longrightarrow> quoteLoop s pos = take pos s @ doubled (drop pos s)"
proof (induction s pos rule: quoteLoop.induct)
  case (1 s pos)
  show ?case
  proof (cases "str_find s dquote pos")
    case None
    then show ?thesis using str_find_NoneD[OF None]
      by (subst quoteLoop.simps) (simp add: doubled_id)
  next
    case (Some i)
    note f = str_find_SomeD[OF Some]
    let ?s' = "take i s @ [dquote, dquote] @ drop (Suc i) s"
    have len: "i + 2 \<le> length ?s'" using f by simp
    have IH: "quoteLoop ?s' (i + 2) = take (i + 2) ?s' @ doubled (drop (i + 2) ?s')"
      using 1(1)[OF Some len] .
    have t: "take (i + 2) ?s' = take i s @ [dquote, dquote]" using f by simp
    have d: "drop (i + 2) ?s' = drop (Suc i) s" using f by simp
    have mid: "dquote \<notin> set (take (i - pos) (drop pos s))"
      using f by (auto simp: in_set_conv_nth)
    have split: "drop pos s = take (i - pos) (drop pos s) @ dquote # drop (Suc i) s"
      using f by (metis Cons_nth_drop_Suc append_take_drop_id drop_drop le_add_diff_inverse2)
    have ti: "take i s = take pos s @ take (i - pos) (drop pos s)"
      using f by (metis le_add_diff_inverse take_add)
    have "quoteLoop s pos = quoteLoop ?s' (i + 2)"
      using Some by (subst quoteLoop.simps) simp
    also have "\<dots> = take i s @ [dquote, dquote] @ doubled (drop (Suc i) s)"
      using IH t d by simp
    also have "\<dots> = take pos s @ doubled (take (i - pos) (drop pos s) @ dquote # drop (Suc i) s)"
      by (simp add: doubled_append doubled_id[OF mid] ti)
    also have "\<dots> = take pos s @ doubled (drop pos s)"
      using split by simp
    finally show ?thesis .
  qed
qed

lemma unquote_doubled: "unquote (doubled s @ [dquote]) = Some s"
proof (induction s)
  case Nil
  show ?case by simp
next
  case (Cons c cs)
  obtain d ds where r: "doubled cs @ [dquote] = d # ds"
    by (cases "doubled cs @ [dquote]") auto
  show ?case using Cons r by (cases "c = dquote") auto
qed

lemma escapeCSV_mt_form:
  "escapeCSV_mt s =
     (if \<exists>c \<in> set s. c \<in> {comma, dquote, LF, CR} then [dquote] @ doubled s @ [dquote] else s)"
  by (simp add: escapeCSV_mt_def quoteLoop_doubled)

lemma escapeCSV_mt_roundtrip: "parseField (escapeCSV_mt s) = Some s"
proof (cases "\<exists>c \<in> set s. c \<in> {comma, dquote, LF, CR}")
  case True
  then show ?thesis
    by (simp add: escapeCSV_mt_form parseField_def unquote_doubled)
next
  case False
  then show ?thesis
    by (cases s) (auto simp: escapeCSV_mt_form parseField_def)
qed

lemma escapeCSV_form:
  "escapeCSV s = (if comma \<in> set s \<or> dquote \<in> set s \<or> LF \<in> set s then [dquote] @ s @ [dquote] else s)"
  by (simp add: escapeCSV_def replace_char_def)

text \<open>
  Claim C5. A type label with a double quote in it, \<^verbatim>\<open>.a"b\<close> (the extension of a file
  named \<^verbatim>\<open>x.a"b\<close>): \<^verbatim>\<open>escapeCSV\<close> of \<^verbatim>\<open>da.cpp\<close> wraps it in quotes and leaves the
  inner quote single, so a CSV reader does not get the label back; the multithreaded
  \<^verbatim>\<open>escapeCSV\<close> doubles the quote and the reader recovers the label.
\<close>

theorem escapeCSV_quote_not_doubled:
  \<open>escapeCSV ''.a"b'' = ''".a"b"'' \<and>
   parseField (escapeCSV ''.a"b'') = None \<and>
   escapeCSV_mt ''.a"b'' = ''".a""b"'' \<and>
   parseField (escapeCSV_mt ''.a"b'') = Some ''.a"b''\<close>
  by (simp add: escapeCSV_form escapeCSV_mt_form parseField_def dquote_def comma_def LF_def CR_def)

section \<open>Runs of the multithreaded analyzer\<close>

subsection \<open>The program-order run is a run\<close>

lemma runs_seq_cons:
  "runs t s s' \<Longrightarrow> runs (Seq ts) s' s'' \<Longrightarrow> runs (Seq (t # ts)) s s''"
proof (induction rule: runs.induct)
  case (finished s)
  then show ?case by (blast intro: runs.after step.seq_next)
next
  case (after t s t' s' s'')
  then show ?case by (blast intro: runs.after step.seq_step)
qed

lemma runs_seq_fold:
  "(\<And>t s. t \<in> set ts \<Longrightarrow> runs t s (f t s)) \<Longrightarrow> runs (Seq ts) s (fold f ts s)"
proof (induction ts arbitrary: s)
  case Nil
  show ?case by (auto intro: runs.intros step.seq_nil)
next
  case (Cons t ts)
  have "runs t s (f t s)" using Cons.prems by simp
  moreover have "runs (Seq ts) (f t s) (fold f ts (f t s))"
    using Cons.IH Cons.prems by simp
  ultimately show ?case using runs_seq_cons by simp
qed

lemma runs_async_at:
  "runs t s s' \<Longrightarrow> runs (Async (ds @ Done # us)) s' s'' \<Longrightarrow> runs (Async (ds @ t # us)) s s''"
proof (induction rule: runs.induct)
  case (finished s)
  then show ?case by simp
next
  case (after t s t' s' s'')
  then show ?case by (blast intro: runs.after step.async_step)
qed

lemma runs_async_fold:
  "(\<And>t s. t \<in> set us \<Longrightarrow> runs t s (f t s)) \<Longrightarrow> set ds \<subseteq> {Done} \<Longrightarrow>
     runs (Async (ds @ us)) s (fold f us s)"
proof (induction us arbitrary: s ds)
  case Nil
  then show ?case by (auto intro: runs.intros step.async_join)
next
  case (Cons t us)
  have 1: "runs t s (f t s)" using Cons.prems by simp
  have "runs (Async ((ds @ [Done]) @ us)) (f t s) (fold f us (f t s))"
    using Cons.prems by (intro Cons.IH) auto
  then have 2: "runs (Async (ds @ Done # us)) (f t s) (fold f us (f t s))" by simp
  show ?case using runs_async_at[OF 1 2] by simp
qed

lemma exec_runs: "runs t s (exec t s)"
proof (induction t s rule: exec.induct)
  case (1 s)
  show ?case by (simp add: runs.finished)
next
  case (2 a s)
  show ?case by (auto intro: runs.intros step.atomic)
next
  case (3 p i t s)
  show ?case
  proof (cases "p \<in> processedDirs s")
    case True
    then show ?thesis by (auto intro: runs.intros step.claim_seen)
  next
    case False
    then show ?thesis using 3 by (auto intro: runs.after step.claim_new)
  qed
next
  case (4 ts s)
  show ?case using runs_seq_fold[of ts exec s] 4 by simp
next
  case (5 ts s)
  show ?case using runs_async_fold[of ts exec "[]" s] 5 by simp
qed

subsection \<open>The effect of a run\<close>

text \<open>
  The operations a task performs when every claim in it succeeds: its atomic actions
  and the insertions of the paths it claims. They commute with each other, so a run
  in which every claim succeeds ends in the state that the operations give in any
  order. Every claim succeeds when the claimed paths are pairwise distinct and none of
  them is in the set at the start.
\<close>

datatype op = Act action | Ins path nat

fun apply_op :: "op \<Rightarrow> analysis_mt \<Rightarrow> analysis_mt" where
  "apply_op (Act a) s = perform a s"
| "apply_op (Ins p i) s = claimDir p i s"

fun ops :: "task \<Rightarrow> op multiset" where
  "ops Done = {#}"
| "ops (Atomic a) = {#Act a#}"
| "ops (Claim p i t) = add_mset (Ins p i) (ops t)"
| "ops (Seq ts) = sum_list (map ops ts)"
| "ops (Async ts) = sum_list (map ops ts)"

fun ins_path :: "op \<Rightarrow> path multiset" where
  "ins_path (Act a) = {#}"
| "ins_path (Ins p i) = {#p#}"

definition claimed :: "op multiset \<Rightarrow> path multiset" where
  "claimed M = sum_mset (image_mset ins_path M)"

definition fresh :: "op multiset \<Rightarrow> analysis_mt \<Rightarrow> bool" where
  "fresh M s \<longleftrightarrow>
     (\<forall>p. count (claimed M) p \<le> 1) \<and> set_mset (claimed M) \<inter> processedDirs s = {}"

lemma update_mt_commute: "update_mt a (update_mt b f) = update_mt b (update_mt a f)"
  by (simp add: update_mt_def add.commute add.left_commute)

lemma perform_commute: "perform a (perform b s) = perform b (perform a s)"
  by (cases a; cases b) (auto simp: update_mt_commute fun_upd_twist)

lemma perform_claimDir: "perform a (claimDir p i s) = claimDir p i (perform a s)"
  by (cases a) (auto simp: claimDir_def)

lemma claimDir_commute: "claimDir p i (claimDir q j s) = claimDir q j (claimDir p i s)"
  by (auto simp: claimDir_def insert_commute)

lemma apply_op_commute: "apply_op x (apply_op y s) = apply_op y (apply_op x s)"
  by (cases x; cases y) (simp_all add: perform_commute perform_claimDir claimDir_commute)

lemma cfc_apply_op: "comp_fun_commute apply_op"
  by (simp add: comp_fun_commute_def fun_eq_iff apply_op_commute)

lemma fold_ops_add:
  "fold_mset apply_op s (add_mset x M) = fold_mset apply_op (apply_op x s) M"
  using comp_fun_commute.fold_mset_add_mset[OF cfc_apply_op]
    comp_fun_commute.fold_mset_fun_left_comm[OF cfc_apply_op] by simp

lemma processedDirs_perform [simp]: "processedDirs (perform a s) = processedDirs s"
  by (cases a) auto

lemma ops_all_Done: "set ts \<subseteq> {Done} \<Longrightarrow> sum_list (map ops ts) = {#}"
  by (induction ts) auto

lemma step_ops:
  "step t s t' s' \<Longrightarrow>
     (ops t' = ops t \<and> s' = s)
   \<or> (\<exists>x. ops t = add_mset x (ops t') \<and> s' = apply_op x s)
   \<or> (\<exists>p i. Ins p i \<in># ops t \<and> p \<in> processedDirs s)"
proof (induction rule: step.induct)
  case (atomic a s)
  have "ops (Atomic a) = add_mset (Act a) (ops Done) \<and> perform a s = apply_op (Act a) s" by simp
  then show ?case by blast
next
  case (claim_new p s i t)
  have "ops (Claim p i t) = add_mset (Ins p i) (ops t) \<and> claimDir p i s = apply_op (Ins p i) s"
    by simp
  then show ?case by blast
next
  case (claim_seen p s i t)
  then show ?case by auto
next
  case (seq_nil s)
  show ?case by simp
next
  case (seq_next ts s)
  show ?case by simp
next
  case (seq_step t s t' s' ts)
  from seq_step.IH show ?case
  proof (elim disjE exE conjE)
    assume "ops t' = ops t" "s' = s"
    then show ?thesis by simp
  next
    fix x assume "ops t = add_mset x (ops t')" "s' = apply_op x s"
    then have "ops (Seq (t # ts)) = add_mset x (ops (Seq (t' # ts))) \<and> s' = apply_op x s"
      by simp
    then show ?thesis by blast
  next
    fix p i assume "Ins p i \<in># ops t" "p \<in> processedDirs s"
    then have "Ins p i \<in># ops (Seq (t # ts)) \<and> p \<in> processedDirs s" by simp
    then show ?thesis by blast
  qed
next
  case (async_step t s t' s' ts us)
  from async_step.IH show ?case
  proof (elim disjE exE conjE)
    assume "ops t' = ops t" "s' = s"
    then show ?thesis by simp
  next
    fix x assume "ops t = add_mset x (ops t')" "s' = apply_op x s"
    then have "ops (Async (ts @ t # us)) = add_mset x (ops (Async (ts @ t' # us))) \<and> s' = apply_op x s"
      by simp
    then show ?thesis by blast
  next
    fix p i assume "Ins p i \<in># ops t" "p \<in> processedDirs s"
    then have "Ins p i \<in># ops (Async (ts @ t # us)) \<and> p \<in> processedDirs s" by simp
    then show ?thesis by blast
  qed
next
  case (async_join ts s)
  then show ?case by (simp add: ops_all_Done)
qed

lemma claimed_add: "claimed (add_mset x M) = ins_path x + claimed M"
  by (simp add: claimed_def)

lemma claimed_Ins: "Ins p i \<in># M \<Longrightarrow> p \<in># claimed M"
  by (auto simp: claimed_def intro!: bexI[of _ "Ins p i"])

lemma fresh_step:
  assumes "fresh (add_mset x M) s"
  shows "fresh M (apply_op x s)"
proof (cases x)
  case (Act a)
  then show ?thesis using assms by (simp add: fresh_def claimed_add)
next
  case (Ins p i)
  have a: "count (add_mset p (claimed M)) q \<le> 1" for q
    using assms Ins by (simp add: fresh_def claimed_add)
  have c: "count (claimed M) q \<le> 1" for q
    using a[of q] by (simp split: if_splits)
  have "count (claimed M) p = 0"
    using a[of p] by simp
  then have n: "p \<notin># claimed M" by (simp add: count_eq_zero_iff)
  have d: "set_mset (claimed M) \<inter> processedDirs s = {}"
    using assms Ins by (auto simp: fresh_def claimed_add)
  show ?thesis
    unfolding fresh_def using c n d Ins by (auto simp: claimDir_def)
qed

lemma runs_effect:
  "runs t s s' \<Longrightarrow> fresh (ops t) s \<Longrightarrow> s' = fold_mset apply_op s (ops t)"
proof (induction rule: runs.induct)
  case (finished s)
  show ?case by simp
next
  case (after t s t' s' s'')
  from step_ops[OF after.hyps(1)] show ?case
  proof (elim disjE exE conjE)
    assume "ops t' = ops t" "s' = s"
    then show ?thesis using after by simp
  next
    fix x assume x: "ops t = add_mset x (ops t')" "s' = apply_op x s"
    then have "fresh (ops t') s'" using after.prems fresh_step by simp
    then have "s'' = fold_mset apply_op s' (ops t')" by (rule after.IH)
    then show ?thesis using x by (simp only: fold_ops_add)
  next
    fix p i assume "Ins p i \<in># ops t" "p \<in> processedDirs s"
    then have False using after.prems claimed_Ins[of p i "ops t"] by (auto simp: fresh_def)
    then show ?thesis ..
  qed
qed

lemma runs_exec:
  assumes "runs t s s'" "fresh (ops t) s"
  shows "s' = exec t s"
  using runs_effect[OF assms] runs_effect[OF exec_runs assms(2)] by simp

subsection \<open>The paths a traversal claims\<close>

text \<open>
  The path strings of the directories of a tree, the root first. In a file system a
  path names one directory, so they are pairwise distinct; the traversal claims some
  of them, each once.
\<close>

fun dirPaths :: "path \<Rightarrow> node \<Rightarrow> path list"
  and entryDirPaths :: "path \<Rightarrow> (string \<times> node) list \<Rightarrow> path list" where
  "dirPaths p (Directory i l es) = p # entryDirPaths p es"
| "dirPaths p (RegularFile fsz) = [p]"
| "dirPaths p Other = [p]"
| "dirPaths p Unreadable = [p]"
| "entryDirPaths d [] = []"
| "entryDirPaths d ((name, Directory i l sub) # es) =
     dirPaths (join d name) (Directory i l sub) @ entryDirPaths d es"
| "entryDirPaths d ((name, RegularFile fsz) # es) = entryDirPaths d es"
| "entryDirPaths d ((name, Other) # es) = entryDirPaths d es"
| "entryDirPaths d ((name, Unreadable) # es) = entryDirPaths d es"

lemma processGit_threads:
  "processGit (cfg\<lparr>numThreads := n\<rparr>) nd = processGit cfg nd"
  by (cases "gitSize_mt nd") (simp_all add: processGit_def)

lemma scanEntries_threads:
  "scanEntries eqv (cfg\<lparr>numThreads := n\<rparr>) d es = scanEntries eqv cfg d es"
  by (induction es)
     (auto simp: shouldExclude_mt_def processGit_threads split: node.splits prod.splits)

lemma processFile_threads:
  "processFile (cfg\<lparr>numThreads := n\<rparr>) p fsz = processFile cfg p fsz"
  by (cases fsz) (simp_all add: processFile_def isWithinSizeThreshold_def shouldInclude_def Let_def)

lemma ops_fanout: "ops (if b then Async ts else Seq ts) = sum_list (map ops ts)"
  by simp

lemma sum_list_empty_mset:
  "(\<And>x. x \<in> set xs \<Longrightarrow> f x = {#}) \<Longrightarrow> sum_list (map f xs) = {#}"
  by (induction xs) auto

lemma subseteq_add_left: "A \<subseteq># B \<Longrightarrow> A \<subseteq># C + (B :: 'a multiset)"
  by (metis mset_subset_eq_add_right subset_mset.trans)

lemma ops_processDirectory:
  "ops (processDirectory eqv cfg p nd) =
     add_mset (Ins p (identity nd))
       (sum_list (map ops (fst (scanEntries eqv cfg p (listing nd)))) +
        sum_list (map (\<lambda>f. ops (processFile cfg (fst f) (snd f)))
                      (fst (snd (scanEntries eqv cfg p (listing nd))))) +
        sum_list (map (\<lambda>sd. ops (processDirectory eqv cfg (fst sd) (snd sd)))
                      (snd (snd (scanEntries eqv cfg p (listing nd))))))"
  by (subst processDirectory.simps) (simp add: comp_def)

lemma ops_processDirectory_threads:
  "ops (processDirectory eqv (cfg\<lparr>numThreads := n\<rparr>) p nd) = ops (processDirectory eqv cfg p nd)"
proof (induction eqv cfg p nd rule: processDirectory.induct)
  case (1 eqv cfg dirPath nd)
  let ?subs = "snd (snd (scanEntries eqv cfg dirPath (listing nd)))"
  have sub: "ops (processDirectory eqv (cfg\<lparr>numThreads := n\<rparr>) (fst sd) (snd sd)) =
             ops (processDirectory eqv cfg (fst sd) (snd sd))" if "sd \<in> set ?subs" for sd
  proof (cases "numThreads cfg > 1 \<and> length ?subs > 1")
    case True
    then show ?thesis using "1.IH"(1) that by blast
  next
    case False
    then show ?thesis using "1.IH"(2) that by blast
  qed
  then have m: "map (\<lambda>sd. ops (processDirectory eqv (cfg\<lparr>numThreads := n\<rparr>) (fst sd) (snd sd))) ?subs =
             map (\<lambda>sd. ops (processDirectory eqv cfg (fst sd) (snd sd))) ?subs"
    by simp
  show ?case
    apply (subst ops_processDirectory[of eqv "cfg\<lparr>numThreads := n\<rparr>" dirPath nd])
    apply (subst ops_processDirectory[of eqv cfg dirPath nd])
    apply (simp only: scanEntries_threads processFile_threads m)
    done
qed

lemma claimed_union: "claimed (M + N) = claimed M + claimed N"
  by (simp add: claimed_def)

lemma claimed_empty: "claimed {#} = {#}"
  by (simp add: claimed_def)

lemma claimed_sum_list: "claimed (sum_list (map f xs)) = sum_list (map (\<lambda>x. claimed (f x)) xs)"
  by (induction xs) (simp_all add: claimed_empty claimed_union)

lemma claimed_processGit: "claimed (ops (processGit cfg nd)) = {#}"
  by (simp add: processGit_def claimed_def split: option.splits)

lemma claimed_processFile: "claimed (ops (processFile cfg p fsz)) = {#}"
  by (simp add: processFile_def claimed_def Let_def split: option.splits)

lemma scanEntries_gits:
  "g \<in> set (fst (scanEntries eqv cfg d es)) \<Longrightarrow> \<exists>nd. g = processGit cfg nd"
  by (induction es) (auto split: if_splits node.splits prod.splits)

lemma sum_list_subset_mono:
  "(\<And>x. x \<in> set xs \<Longrightarrow> f x \<subseteq># g x) \<Longrightarrow> sum_list (map f xs) \<subseteq># sum_list (map g xs)"
  by (induction xs) (auto intro: subset_mset.add_mono)

lemma scanEntries_dirPaths:
  "sum_list (map (\<lambda>sd. mset (dirPaths (fst sd) (snd sd))) (snd (snd (scanEntries eqv cfg d es))))
     \<subseteq># mset (entryDirPaths d es)"
proof (induction es)
  case Nil
  show ?case by simp
next
  case (Cons e es)
  obtain name nd where e: "e = (name, nd)" by (cases e)
  show ?case
  proof (cases "shouldExclude_mt eqv cfg (join d name)")
    case True
    have "mset (entryDirPaths d es) \<subseteq># mset (entryDirPaths d (e # es))"
      unfolding e by (cases nd) auto
    with Cons True e show ?thesis by (auto intro: subset_mset.trans)
  next
    case False
    show ?thesis
    proof (cases nd)
      case (RegularFile fsz)
      with Cons False e show ?thesis by (auto split: prod.splits)
    next
      case (Directory i l sub)
      show ?thesis
      proof (cases "filename (join d name) = ''.git''")
        case True
        have "mset (entryDirPaths d es) \<subseteq># mset (entryDirPaths d (e # es))"
          unfolding e Directory by simp
        moreover have "snd (snd (scanEntries eqv cfg d (e # es))) = snd (snd (scanEntries eqv cfg d es))"
          using False True e Directory by (simp split: prod.splits)
        ultimately show ?thesis using Cons by (auto intro: subset_mset.trans)
      next
        case ng: False
        have "snd (snd (scanEntries eqv cfg d (e # es))) =
              (join d name, nd) # snd (snd (scanEntries eqv cfg d es))"
          using False ng e Directory by (simp split: prod.splits)
        moreover have "mset (entryDirPaths d (e # es)) =
              mset (dirPaths (join d name) nd) + mset (entryDirPaths d es)"
          unfolding e Directory by simp
        ultimately show ?thesis using Cons by (simp del: dirPaths.simps)
      qed
    next
      case Other
      with Cons False e show ?thesis by auto
    next
      case Unreadable
      with Cons False e show ?thesis by auto
    qed
  qed
qed

lemma claimed_processDirectory:
  "claimed (ops (processDirectory eqv cfg p nd)) \<subseteq># mset (dirPaths p nd)"
proof (induction eqv cfg p nd rule: processDirectory.induct)
  case (1 eqv cfg dirPath nd)
  let ?sc = "scanEntries eqv cfg dirPath (listing nd)"
  let ?subs = "snd (snd ?sc)"
  have sub: "claimed (ops (processDirectory eqv cfg (fst sd) (snd sd))) \<subseteq># mset (dirPaths (fst sd) (snd sd))"
    if "sd \<in> set ?subs" for sd
  proof (cases "numThreads cfg > 1 \<and> length ?subs > 1")
    case True
    then show ?thesis using "1.IH"(1) that by blast
  next
    case False
    then show ?thesis using "1.IH"(2) that by blast
  qed
  have gits: "claimed (sum_list (map ops (fst ?sc))) = {#}"
  proof -
    have "claimed (ops g) = {#}" if "g \<in> set (fst ?sc)" for g
      using scanEntries_gits[OF that] claimed_processGit by auto
    then show ?thesis unfolding claimed_sum_list by (rule sum_list_empty_mset)
  qed
  have files: "claimed (sum_list (map (\<lambda>f. ops (processFile cfg (fst f) (snd f))) (fst (snd ?sc)))) = {#}"
    by (simp add: claimed_sum_list claimed_processFile)
  have "claimed (sum_list (map (\<lambda>sd. ops (processDirectory eqv cfg (fst sd) (snd sd))) ?subs))
          \<subseteq># sum_list (map (\<lambda>sd. mset (dirPaths (fst sd) (snd sd))) ?subs)"
    unfolding claimed_sum_list using sub by (rule sum_list_subset_mono)
  also have "\<dots> \<subseteq># mset (entryDirPaths dirPath (listing nd))"
    by (rule scanEntries_dirPaths)
  finally have subs: "claimed (sum_list (map (\<lambda>sd. ops (processDirectory eqv cfg (fst sd) (snd sd))) ?subs))
          \<subseteq># mset (entryDirPaths dirPath (listing nd))" .
  have dp: "mset (dirPaths dirPath nd) = add_mset dirPath (mset (entryDirPaths dirPath (listing nd)))"
    by (cases nd) auto
  have "claimed (ops (processDirectory eqv cfg dirPath nd)) =
        add_mset dirPath (claimed (sum_list (map (\<lambda>sd. ops (processDirectory eqv cfg (fst sd) (snd sd))) ?subs)))"
    apply (subst ops_processDirectory)
    apply (simp add: claimed_add claimed_union gits files)
    done
  then show ?case using subs dp by simp
qed

lemma fresh_processDirectory:
  assumes "distinct (dirPaths p nd)" "processedDirs s = {}"
  shows "fresh (ops (processDirectory eqv cfg p nd)) s"
proof -
  have "count (claimed (ops (processDirectory eqv cfg p nd))) q \<le> 1" for q
  proof -
    have "count (claimed (ops (processDirectory eqv cfg p nd))) q \<le> count (mset (dirPaths p nd)) q"
      using claimed_processDirectory by (rule mset_subset_eq_count)
    also have "\<dots> \<le> 1" using assms(1) by (simp add: distinct_count_atmost_1)
    finally show ?thesis .
  qed
  then show ?thesis using assms(2) by (simp add: fresh_def)
qed

section \<open>Closed accounting\<close>

text \<open>
  The sum over the keys of the per-type map of the per-type byte totals, in the
  arithmetic of \<^verbatim>\<open>size_t\<close>, and the equation that closes the accounts: the per-type
  totals plus the hidden bytes are the total bytes. The balance of a state is the
  difference of the two sides; the net balance of a task is what its actions add to it.
\<close>

definition typesTotal :: "'a analysis_scheme \<Rightarrow> size_t" where
  "typesTotal st = (\<Sum>k \<in> dom (stats st). ft_totalSize (the (stats st k)))"

definition closedAccounting :: "'a analysis_scheme \<Rightarrow> bool" where
  "closedAccounting st \<longleftrightarrow> typesTotal st + hiddenSize st = totalSize st"

text \<open>The same sum over the natural numbers, where nothing wraps.\<close>

definition typesTotalNat :: "'a analysis_scheme \<Rightarrow> nat" where
  "typesTotalNat st = (\<Sum>k \<in> dom (stats st). unat (ft_totalSize (the (stats st k))))"

definition balance :: "'a analysis_scheme \<Rightarrow> size_t" where
  "balance st = typesTotal st + hiddenSize st - totalSize st"

fun actionBalance :: "action \<Rightarrow> size_t" where
  "actionBalance (AddTotalSize sz) = - sz"
| "actionBalance IncHiddenFiles = 0"
| "actionBalance (AddHiddenSize sz) = sz"
| "actionBalance (UpdateStats k sz) = sz"

fun netBalance :: "task \<Rightarrow> size_t" where
  "netBalance Done = 0"
| "netBalance (Atomic a) = actionBalance a"
| "netBalance (Claim p i t) = netBalance t"
| "netBalance (Seq ts) = sum_list (map netBalance ts)"
| "netBalance (Async ts) = sum_list (map netBalance ts)"

fun settled :: "task \<Rightarrow> bool" where
  "settled Done = True"
| "settled (Atomic a) = True"
| "settled (Claim p i t) = (netBalance t = 0 \<and> settled t)"
| "settled (Seq ts) = list_all settled ts"
| "settled (Async ts) = list_all settled ts"

lemma closedAccounting_balance: "closedAccounting st \<longleftrightarrow> balance st = 0"
  by (auto simp: closedAccounting_def balance_def)

lemma sum_map_upd:
  fixes f :: "'v \<Rightarrow> size_t"
  assumes "finite (dom m)"
  shows "(\<Sum>x \<in> dom (m(k \<mapsto> v)). f (the ((m(k \<mapsto> v)) x))) + (case m k of None \<Rightarrow> 0 | Some w \<Rightarrow> f w)
         = (\<Sum>x \<in> dom m. f (the (m x))) + f v"
proof -
  let ?D = "dom m - {k}"
  have fin: "finite ?D" using assms by simp
  have new: "(\<Sum>x \<in> dom (m(k \<mapsto> v)). f (the ((m(k \<mapsto> v)) x))) = f v + (\<Sum>x \<in> ?D. f (the (m x)))"
  proof -
    have "dom (m(k \<mapsto> v)) = insert k ?D" by auto
    then have "(\<Sum>x \<in> dom (m(k \<mapsto> v)). f (the ((m(k \<mapsto> v)) x))) =
               (\<Sum>x \<in> insert k ?D. f (the ((m(k \<mapsto> v)) x)))" by simp
    also have "\<dots> = f v + (\<Sum>x \<in> ?D. f (the ((m(k \<mapsto> v)) x)))"
      using fin by (subst sum.insert) auto
    also have "(\<Sum>x \<in> ?D. f (the ((m(k \<mapsto> v)) x))) = (\<Sum>x \<in> ?D. f (the (m x)))"
      by (rule sum.cong) auto
    finally show ?thesis .
  qed
  show ?thesis
  proof (cases "m k")
    case None
    then have "?D = dom m" by auto
    then show ?thesis using new None by (simp add: add.commute)
  next
    case (Some w)
    then have "dom m = insert k ?D" by auto
    then have "(\<Sum>x \<in> dom m. f (the (m x))) = (\<Sum>x \<in> insert k ?D. f (the (m x)))" by simp
    also have "\<dots> = f w + (\<Sum>x \<in> ?D. f (the (m x)))"
      using fin Some by (subst sum.insert) auto
    finally show ?thesis using new Some by (simp add: add.commute add.left_commute)
  qed
qed

lemma typesTotal_upd:
  assumes "finite (dom (stats st))"
  shows "typesTotal (st\<lparr>stats := (stats st)(k \<mapsto> f)\<rparr>)
           = typesTotal st + ft_totalSize f - (case stats st k of None \<Rightarrow> 0 | Some g \<Rightarrow> ft_totalSize g)"
  using sum_map_upd[OF assms, where k = k and v = f and f = ft_totalSize]
  by (simp add: typesTotal_def algebra_simps)

lemma perform_finite: "finite (dom (stats s)) \<Longrightarrow> finite (dom (stats (perform a s)))"
  by (cases a) auto

lemma perform_balance:
  assumes "finite (dom (stats s))"
  shows "balance (perform a s) = balance s + actionBalance a"
proof (cases a)
  case (UpdateStats k sz)
  have "typesTotal (perform a s) = typesTotal s + sz"
  proof -
    have "typesTotal (perform a s) =
          typesTotal (s\<lparr>stats := (stats s)(k \<mapsto> update_mt sz (case stats s k of None \<Rightarrow> noStats | Some f \<Rightarrow> f))\<rparr>)"
      unfolding UpdateStats by (simp add: typesTotal_def)
    also have "\<dots> = typesTotal s + sz"
      by (subst typesTotal_upd[OF assms]) (simp add: update_mt_def noStats_def split: option.splits)
    finally show ?thesis .
  qed
  then show ?thesis using UpdateStats by (simp add: balance_def)
qed (simp_all add: balance_def typesTotal_def)

lemma claimDir_balance: "balance (claimDir p i s) = balance s"
  by (simp add: balance_def typesTotal_def claimDir_def)

lemma netBalance_all_Done: "set ts \<subseteq> {Done} \<Longrightarrow> sum_list (map netBalance ts) = 0"
  by (induction ts) auto

lemma step_balance:
  "step t s t' s' \<Longrightarrow> finite (dom (stats s)) \<Longrightarrow> settled t \<Longrightarrow>
     finite (dom (stats s')) \<and> settled t' \<and> balance s' + netBalance t' = balance s + netBalance t"
proof (induction rule: step.induct)
  case (atomic a s)
  then show ?case by (simp add: perform_finite perform_balance)
next
  case (claim_new p s i t)
  then show ?case by (simp add: claimDir_balance) (simp add: claimDir_def)
next
  case (claim_seen p s i t)
  then show ?case by simp
next
  case (seq_nil s)
  then show ?case by simp
next
  case (seq_next ts s)
  then show ?case by simp
next
  case (seq_step t s t' s' ts)
  then show ?case by (simp add: algebra_simps)
next
  case (async_step t s t' s' ts us)
  then show ?case by (simp add: algebra_simps)
next
  case (async_join ts s)
  then show ?case by (simp add: netBalance_all_Done)
qed

lemma runs_balance:
  "runs t s s' \<Longrightarrow> finite (dom (stats s)) \<Longrightarrow> settled t \<Longrightarrow> balance s' = balance s + netBalance t"
proof (induction rule: runs.induct)
  case (finished s)
  show ?case by simp
next
  case (after t s t' s' s'')
  from step_balance[OF after.hyps(1) after.prems]
  have "finite (dom (stats s'))" "settled t'" "balance s' + netBalance t' = balance s + netBalance t"
    by simp_all
  with after.IH show ?case by simp
qed

lemma processGit_settled: "settled (processGit cfg nd) \<and> netBalance (processGit cfg nd) = 0"
  by (simp add: processGit_def split: option.splits)

lemma processFile_settled: "settled (processFile cfg p fsz) \<and> netBalance (processFile cfg p fsz) = 0"
  by (simp add: processFile_def Let_def split: option.splits)

lemma sum_list_zero: "(\<And>x. x \<in> set xs \<Longrightarrow> f x = (0 :: size_t)) \<Longrightarrow> sum_list (map f xs) = 0"
  by (induction xs) auto

lemma processDirectory_settled:
  "settled (processDirectory eqv cfg p nd) \<and> netBalance (processDirectory eqv cfg p nd) = 0"
proof (induction eqv cfg p nd rule: processDirectory.induct)
  case (1 eqv cfg dirPath nd)
  let ?sc = "scanEntries eqv cfg dirPath (listing nd)"
  let ?subs = "snd (snd ?sc)"
  let ?kids = "map (\<lambda>sd. processDirectory eqv cfg (fst sd) (snd sd)) ?subs"
  have sub: "settled (processDirectory eqv cfg (fst sd) (snd sd)) \<and>
             netBalance (processDirectory eqv cfg (fst sd) (snd sd)) = 0" if "sd \<in> set ?subs" for sd
  proof (cases "numThreads cfg > 1 \<and> length ?subs > 1")
    case True
    then show ?thesis using "1.IH"(1) that by blast
  next
    case False
    then show ?thesis using "1.IH"(2) that by blast
  qed
  have g: "settled g \<and> netBalance g = 0" if "g \<in> set (fst ?sc)" for g
    using scanEntries_gits[OF that] processGit_settled by auto
  have k1: "list_all settled ?kids" using sub by (simp add: list_all_iff)
  have k2: "sum_list (map netBalance ?kids) = 0"
    using sub by (simp add: comp_def sum_list_zero)
  have g1: "list_all settled (fst ?sc)" using g by (simp add: list_all_iff)
  have g2: "sum_list (map netBalance (fst ?sc)) = 0" using g by (simp add: sum_list_zero)
  have f1: "list_all settled (map (\<lambda>f. processFile cfg (fst f) (snd f)) (fst (snd ?sc)))"
    by (simp add: list_all_iff processFile_settled)
  have f2: "sum_list (map netBalance (map (\<lambda>f. processFile cfg (fst f) (snd f)) (fst (snd ?sc)))) = 0"
    by (simp add: comp_def processFile_settled)
  have a: "settled (processDirectory eqv cfg dirPath nd)"
    using k1 k2 g1 g2 f1 f2 by (subst processDirectory.simps) simp
  have b: "netBalance (processDirectory eqv cfg dirPath nd) = 0"
    using k1 k2 g1 g2 f1 f2 by (subst processDirectory.simps) simp
  from a b show ?case ..
qed

subsection \<open>The sequential analyzer keeps the balance\<close>

lemma update_total:
  "ft_totalSize (snd (update sz f)) = ft_totalSize f + (if fst (update sz f) = None then sz else 0)"
  by (simp add: update_def Let_def)

lemma statsUpdate_fields:
  "hiddenSize (snd (statsUpdate k sz st)) = hiddenSize st"
  "totalSize (snd (statsUpdate k sz st)) = totalSize st"
  "finite (dom (stats st)) \<Longrightarrow> finite (dom (stats (snd (statsUpdate k sz st))))"
  by (simp_all add: statsUpdate_def Let_def)

lemma statsUpdate_typesTotal:
  assumes "finite (dom (stats st))"
  shows "typesTotal (snd (statsUpdate k sz st)) =
           typesTotal st + (if fst (statsUpdate k sz st) = None then sz else 0)"
proof -
  let ?old = "case stats st k of None \<Rightarrow> noStats | Some f \<Rightarrow> f"
  have "typesTotal (snd (statsUpdate k sz st)) =
        typesTotal st + ft_totalSize (snd (update sz ?old)) -
          (case stats st k of None \<Rightarrow> 0 | Some g \<Rightarrow> ft_totalSize g)"
    using typesTotal_upd[OF assms, of k "snd (update sz ?old)"]
    by (simp add: statsUpdate_def Let_def)
  also have "(case stats st k of None \<Rightarrow> 0 | Some g \<Rightarrow> ft_totalSize g) = ft_totalSize ?old"
    by (simp add: noStats_def split: option.splits)
  finally show ?thesis
    by (simp add: update_total statsUpdate_def Let_def)
qed

lemma analyzeFile_balance:
  assumes "finite (dom (stats st))"
  shows "finite (dom (stats (snd (analyzeFile cfg p fsz st)))) \<and>
         balance (snd (analyzeFile cfg p fsz st)) = balance st"
proof (cases fsz)
  case None
  then show ?thesis using assms by (simp add: analyzeFile_def)
next
  case (Some sz)
  obtain e st' where u: "statsUpdate (getFileType p) sz st = (e, st')"
    by (cases "statsUpdate (getFileType p) sz st")
  have f: "finite (dom (stats st'))" "hiddenSize st' = hiddenSize st" "totalSize st' = totalSize st"
    "typesTotal st' = typesTotal st + (if e = None then sz else 0)"
    using statsUpdate_fields[where k = "getFileType p" and sz = sz and st = st]
      statsUpdate_typesTotal[OF assms, where k = "getFileType p" and sz = sz] u assms
    by simp_all
  show ?thesis
    using Some assms u f
    by (auto simp: analyzeFile_def Let_def balance_def typesTotal_def split: option.splits)
qed

lemma analyzeGit_balance:
  assumes "finite (dom (stats st))" "analyzeGit cfg nd st = Inr st'"
  shows "finite (dom (stats st')) \<and> balance st' = balance st"
proof -
  from assms(2) obtain g where g: "calculateDirectorySize nd = Some g"
    by (auto simp: analyzeGit_def split: option.splits)
  obtain e st1 where u: "statsUpdate ''.git'' g st = (e, st1)"
    by (cases "statsUpdate ''.git'' g st")
  have f: "finite (dom (stats st1))" "hiddenSize st1 = hiddenSize st" "totalSize st1 = totalSize st"
    "typesTotal st1 = typesTotal st + (if e = None then g else 0)"
    using statsUpdate_fields[where k = "''.git''" and sz = g and st = st]
      statsUpdate_typesTotal[OF assms(1), where k = "''.git''" and sz = g] u assms(1)
    by simp_all
  show ?thesis
    using assms g u f
    by (auto simp: analyzeGit_def balance_def typesTotal_def split: option.splits if_splits)
qed

lemma analyze_balance:
  "analyze eqv cfg p nd st = Inr st' \<Longrightarrow> finite (dom (stats st)) \<Longrightarrow>
     finite (dom (stats st')) \<and> balance st' = balance st"
  "analyzeLoop eqv cfg p es ec st = Inr st' \<Longrightarrow> finite (dom (stats st)) \<Longrightarrow>
     finite (dom (stats st')) \<and> balance st' = balance st"
proof (induction eqv cfg p nd st and eqv cfg p es ec st arbitrary: st' and st'
       rule: analyze_analyzeLoop.induct)
  case (1 eqv cfg p i l es st)
  then show ?case by simp
next
  case (2 eqv cfg p s st)
  then show ?case by simp
next
  case (3 eqv cfg p st)
  then show ?case by simp
next
  case (4 eqv cfg p st)
  then show ?case by simp
next
  case (5 eqv cfg d ec st)
  then show ?case by simp
next
  case (6 eqv cfg d name nd es ec st)
  show ?case
  proof (cases "ec \<or> shouldExclude eqv cfg (join d name)")
    case True
    then show ?thesis using 6 by (auto split: if_splits)
  next
    case False
    then have ne: "\<not> ec" "\<not> shouldExclude eqv cfg (join d name)" by auto
    show ?thesis
    proof (cases nd)
      case (RegularFile fsz)
      obtain ec' st1 where a: "analyzeFile cfg (join d name) fsz st = (ec', st1)"
        by (cases "analyzeFile cfg (join d name) fsz st")
      have b: "finite (dom (stats st1)) \<and> balance st1 = balance st"
        using analyzeFile_balance[OF "6.prems"(2), of cfg "join d name" fsz] a by simp
      have r: "analyzeLoop eqv cfg d es ec' st1 = Inr st'"
        using "6.prems"(1) ne RegularFile a by simp
      have "finite (dom (stats st')) \<and> balance st' = balance st1"
        using "6.IH"(3)[OF ne RegularFile a[symmetric] r] b by simp
      with b show ?thesis by simp
    next
      case (Directory i l sub)
      show ?thesis
      proof (cases "filename (join d name) = ''.git''")
        case True
        from "6.prems"(1) ne Directory True obtain st1 where
          g: "analyzeGit cfg nd st = Inr st1" and r: "analyzeLoop eqv cfg d es False st1 = Inr st'"
          by (auto split: sum.splits)
        have b: "finite (dom (stats st1)) \<and> balance st1 = balance st"
          using analyzeGit_balance[OF "6.prems"(2) g] .
        have "finite (dom (stats st')) \<and> balance st' = balance st1"
          using "6.IH"(4)[OF ne Directory True g r] b by simp
        with b show ?thesis by simp
      next
        case False
        from "6.prems"(1) ne Directory False obtain st1 where
          g: "analyze eqv cfg (join d name) (Directory i l sub) st = Inr st1"
          and r: "analyzeLoop eqv cfg d es False st1 = Inr st'"
          by (auto split: sum.splits)
        have b: "finite (dom (stats st1)) \<and> balance st1 = balance st"
          using "6.IH"(5)[OF ne Directory False g "6.prems"(2)] .
        have "finite (dom (stats st')) \<and> balance st' = balance st1"
          using "6.IH"(6)[OF ne Directory False g r] b by simp
        with b show ?thesis by simp
      qed
    next
      case Other
      then show ?thesis using 6 ne by simp
    next
      case Unreadable
      then show ?thesis using 6 ne by simp
    qed
  qed
qed

section \<open>Configurations and trees for the examples\<close>

text \<open>A file that the size filter, the type filter or a failing size query leaves out.\<close>

definition skipped :: "'c config_scheme \<Rightarrow> path \<Rightarrow> size_t option \<Rightarrow> bool" where
  "skipped cfg p fsz =
     (case fsz of
        None \<Rightarrow> True
      | Some sz \<Rightarrow> \<not> isWithinSizeThreshold cfg sz \<or> \<not> shouldInclude cfg (getFileType p))"

text \<open>A file system in which every equivalence query throws (no excluded directory exists).\<close>

definition noEquivalent :: equivalent where
  "noEquivalent p q = None"

text \<open>The constructor of the multithreaded analyzer; \<open>hw\<close> is \<^verbatim>\<open>hardware_concurrency()\<close>.\<close>

definition newConfig_mt :: "bool \<Rightarrow> nat \<Rightarrow> config_mt" where
  "newConfig_mt sh hw = \<lparr>excludeDirs = [], includeTypes = {}, showHidden = sh,
      sizeThreshold = defaultThreshold, numThreads = (if hw \<noteq> 0 then hw else 1)\<rparr>"

definition sampleTree :: node where
  "sampleTree = Directory 1 False
     [(''a.txt'', RegularFile (Some 500)),
      (''B.TXT'', RegularFile (Some 2048)),
      (''.env'', RegularFile (Some 100)),
      (''gone'', RegularFile None),
      (''src'', Directory 2 False
         [(''main'', RegularFile (Some 5000)),
          (''.git'', Directory 3 False [(''HEAD'', RegularFile (Some 7))])]),
      (''doc'', Directory 4 False [(''x.md'', RegularFile (Some 11))])]"

definition oneFileTree :: node where
  "oneFileTree = Directory 1 False [(''a.txt'', RegularFile (Some 100))]"

definition afterOneRun :: analysis where
  "afterOneRun = \<lparr>stats = [''.txt'' \<mapsto> \<lparr>ft_count = 1, ft_totalSize = 100\<rparr>],
                   totalFiles = 1, totalSize = 100, hiddenFiles = 0, hiddenSize = 0\<rparr>"

definition afterTwoRuns :: analysis where
  "afterTwoRuns = \<lparr>stats = [''.txt'' \<mapsto> \<lparr>ft_count = 2, ft_totalSize = 200\<rparr>],
                    totalFiles = 2, totalSize = 200, hiddenFiles = 0, hiddenSize = 0\<rparr>"

section \<open>Closed accounting of a run\<close>

lemma unat_sum:
  "finite A \<Longrightarrow> unat (\<Sum>x \<in> A. (f x :: size_t)) = (\<Sum>x \<in> A. unat (f x)) mod 2 ^ 64"
proof (induction A rule: finite_induct)
  case empty
  show ?case by simp
next
  case (insert a A)
  have "unat (\<Sum>x \<in> insert a A. f x) = (unat (f a) + unat (\<Sum>x \<in> A. f x)) mod 2 ^ 64"
    using insert.hyps by (simp add: unat_word_ariths)
  also have "\<dots> = (unat (f a) + (\<Sum>x \<in> A. unat (f x)) mod 2 ^ 64) mod 2 ^ 64"
    using insert.IH by simp
  also have "\<dots> = (unat (f a) + (\<Sum>x \<in> A. unat (f x))) mod 2 ^ 64"
    by (rule mod_add_right_eq)
  finally show ?case using insert.hyps by simp
qed

lemma closedAccounting_nat:
  assumes "finite (dom (stats st))" "closedAccounting st"
  shows "(typesTotalNat st + unat (hiddenSize st)) mod 2 ^ 64 = unat (totalSize st)"
proof -
  have "unat (totalSize st) = unat (typesTotal st + hiddenSize st)"
    using assms(2) by (simp add: closedAccounting_def)
  also have "\<dots> = (unat (typesTotal st) + unat (hiddenSize st)) mod 2 ^ 64"
    by (simp add: unat_word_ariths)
  also have "unat (typesTotal st) = typesTotalNat st mod 2 ^ 64"
    unfolding typesTotal_def typesTotalNat_def using assms(1) by (rule unat_sum)
  also have "(typesTotalNat st mod 2 ^ 64 + unat (hiddenSize st)) mod 2 ^ 64 =
             (typesTotalNat st + unat (hiddenSize st)) mod 2 ^ 64"
    by (rule mod_add_left_eq)
  finally show ?thesis by simp
qed

lemma step_finite: "step t s t' s' \<Longrightarrow> finite (dom (stats s)) \<Longrightarrow> finite (dom (stats s'))"
  by (induction rule: step.induct) (auto simp: perform_finite claimDir_def)

lemma runs_finite: "runs t s s' \<Longrightarrow> finite (dom (stats s)) \<Longrightarrow> finite (dom (stats s'))"
  by (induction rule: runs.induct) (auto dest: step_finite)

lemma reset_eq: "reset s = newAnalysis_mt"
  by (cases s) (simp add: reset_def newAnalysis_mt_def newAnalysis_def analysis.extend_def analysis_mt.fields_def)

lemma newAnalysis_closed: "finite (dom (stats newAnalysis)) \<and> balance newAnalysis = 0"
  by (simp add: newAnalysis_def balance_def typesTotal_def)

lemma newAnalysis_mt_closed: "finite (dom (stats newAnalysis_mt)) \<and> balance newAnalysis_mt = 0"
  by (simp add: newAnalysis_mt_def newAnalysis_def balance_def typesTotal_def analysis.extend_def)

lemma analyze_mt_exec: "analyze_mt eqv cfg p nd s (exec (processDirectory eqv cfg p nd) (reset s))"
  unfolding analyze_mt_def by (rule exec_runs)

lemma skipped_analyzeFile: "skipped cfg p fsz \<Longrightarrow> analyzeFile cfg p fsz st = (fsz = None, st)"
  by (auto simp: skipped_def analyzeFile_def split: option.splits)

lemma skipped_processFile: "skipped cfg p fsz \<Longrightarrow> processFile cfg p fsz = Done"
  by (auto simp: skipped_def processFile_def split: option.splits)

text \<open>
  Claim C1. After a completed run of either analyzer the per-type byte totals, summed
  over the keys of the map, plus the hidden bytes equal the total bytes: for every
  tree, every configuration, and in the multithreaded variant every interleaving of
  the workers, of which there is at least one. The equation holds in the arithmetic of
  the counters (\<^verbatim>\<open>size_t\<close>); over the natural numbers it holds modulo \<open>2 ^ 64\<close>, so
  exactly whenever the left side is below \<open>2 ^ 64\<close>. A file that a filter leaves out,
  or whose size cannot be read, changes nothing.
\<close>

theorem closed_accounting:
  "(analyze eqv cfg p nd newAnalysis = Inr st' \<longrightarrow>
      closedAccounting st' \<and>
      (typesTotalNat st' + unat (hiddenSize st')) mod 2 ^ 64 = unat (totalSize st'))
   \<and> (analyze_mt eqv cfg_mt p nd s s' \<longrightarrow>
      closedAccounting s' \<and>
      (typesTotalNat s' + unat (hiddenSize s')) mod 2 ^ 64 = unat (totalSize s'))
   \<and> (\<exists>r. analyze_mt eqv cfg_mt p nd s r)
   \<and> (skipped cfg q fsz \<longrightarrow> snd (analyzeFile cfg q fsz st) = st)
   \<and> (skipped cfg_mt q fsz \<longrightarrow> processFile cfg_mt q fsz = Done \<and> exec Done s = s)"
proof (intro conjI impI)
  assume "analyze eqv cfg p nd newAnalysis = Inr st'"
  then have b: "finite (dom (stats st')) \<and> balance st' = balance newAnalysis"
    using analyze_balance(1) newAnalysis_closed by blast
  then show c: "closedAccounting st'"
    using newAnalysis_closed by (simp add: closedAccounting_balance)
  from b have "finite (dom (stats st'))" ..
  then show "(typesTotalNat st' + unat (hiddenSize st')) mod 2 ^ 64 = unat (totalSize st')"
    using c by (rule closedAccounting_nat)
next
  assume "analyze_mt eqv cfg_mt p nd s s'"
  then have r: "runs (processDirectory eqv cfg_mt p nd) newAnalysis_mt s'"
    by (simp add: analyze_mt_def reset_eq)
  then have "balance s' = balance newAnalysis_mt + netBalance (processDirectory eqv cfg_mt p nd)"
    using runs_balance newAnalysis_mt_closed processDirectory_settled by blast
  then show c: "closedAccounting s'"
    using newAnalysis_mt_closed processDirectory_settled[of eqv cfg_mt p nd]
    by (simp add: closedAccounting_balance)
  have "finite (dom (stats s'))"
    using r newAnalysis_mt_closed by (blast intro: runs_finite)
  then show "(typesTotalNat s' + unat (hiddenSize s')) mod 2 ^ 64 = unat (totalSize s')"
    using c by (rule closedAccounting_nat)
next
  show "\<exists>r. analyze_mt eqv cfg_mt p nd s r"
    using analyze_mt_exec by blast
next
  assume "skipped cfg q fsz"
  then show "snd (analyzeFile cfg q fsz st) = st" by (simp add: skipped_analyzeFile)
next
  assume "skipped cfg_mt q fsz"
  then show "processFile cfg_mt q fsz = Done" by (rule skipped_processFile)
next
  show "exec Done s = s" by simp
qed

lemma sample_da_completes:
  "case analyze noEquivalent (newConfig False) ''root'' sampleTree newAnalysis of
     Inr st' \<Rightarrow> totalFiles st' = 3 \<and> totalSize st' = 2659 \<and> hiddenFiles st' = 1 \<and> hiddenSize st' = 100
   | Inl e \<Rightarrow> False"
  by code_simp

theorem closed_accounting_witness:
  "(case analyze noEquivalent (newConfig False) ''root'' sampleTree newAnalysis of
      Inr st' \<Rightarrow> closedAccounting st' | Inl e \<Rightarrow> False)
   \<and> closedAccounting (exec (processDirectory noEquivalent (newConfig_mt False 4) ''root'' sampleTree)
                          (reset newAnalysis_mt))
   \<and> snd (analyzeFile (newConfig False) ''root/gone'' None newAnalysis) = newAnalysis"
proof -
  obtain st' where r: "analyze noEquivalent (newConfig False) ''root'' sampleTree newAnalysis = Inr st'"
    using sample_da_completes
    by (cases "analyze noEquivalent (newConfig False) ''root'' sampleTree newAnalysis") auto
  note t = closed_accounting[where eqv = noEquivalent and cfg = "newConfig False" and p = "''root''"
      and nd = sampleTree and cfg_mt = "newConfig_mt False 4" and s = newAnalysis_mt
      and q = "''root/gone''" and fsz = None and st = newAnalysis and st' = st'
      and s' = "exec (processDirectory noEquivalent (newConfig_mt False 4) ''root'' sampleTree)
                  (reset newAnalysis_mt)"]
  have a: "closedAccounting st'"
    using t[THEN conjunct1] r by simp
  have b: "closedAccounting (exec (processDirectory noEquivalent (newConfig_mt False 4) ''root'' sampleTree)
                          (reset newAnalysis_mt))"
    using t[THEN conjunct2, THEN conjunct1] analyze_mt_exec by blast
  have c: "snd (analyzeFile (newConfig False) ''root/gone'' None newAnalysis) = newAnalysis"
    using t[THEN conjunct2, THEN conjunct2, THEN conjunct2, THEN conjunct1]
    by (simp add: skipped_def)
  from a b c r show ?thesis by simp
qed

section \<open>Worker count\<close>

text \<open>
  The names in a directory listing: pairwise distinct within the directory, not empty,
  and without a separator.
\<close>

fun wellNamed :: "node \<Rightarrow> bool"
  and wellNamedEntries :: "(string \<times> node) list \<Rightarrow> bool" where
  "wellNamed (Directory i l es) = (distinct (map fst es) \<and> wellNamedEntries es)"
| "wellNamed (RegularFile fsz) = True"
| "wellNamed Other = True"
| "wellNamed Unreadable = True"
| "wellNamedEntries [] = True"
| "wellNamedEntries ((name, nd) # es) =
     (name \<noteq> [] \<and> CHR ''/'' \<notin> set name \<and> wellNamed nd \<and> wellNamedEntries es)"

text \<open>
  \<open>join q n\<close> puts the name behind \<open>base q\<close>; a path is under the entry \<open>n\<close> of \<open>q\<close>
  when it is the path of that entry or goes on with a separator.
\<close>

definition base :: "path \<Rightarrow> path" where
  "base q = (if q = [] \<or> last q = CHR ''/'' then q else q @ ''/'')"

definition under :: "path \<Rightarrow> string \<Rightarrow> path \<Rightarrow> bool" where
  "under q n x \<longleftrightarrow> (\<exists>r. x = base q @ n @ r \<and> (r = [] \<or> hd r = CHR ''/''))"

lemma join_base: "join q n = base q @ n"
  by (simp add: join_def base_def)

lemma base_child: "n \<noteq> [] \<Longrightarrow> CHR ''/'' \<notin> set n \<Longrightarrow> base (base q @ n) = base q @ n @ ''/''"
proof -
  assume n: "n \<noteq> []" "CHR ''/'' \<notin> set n"
  then have "last n \<in> set n" by simp
  then have "last n \<noteq> CHR ''/''" using n(2) by auto
  then show ?thesis using n(1) by (simp add: base_def)
qed

lemma takeWhile_name:
  "CHR ''/'' \<notin> set n \<Longrightarrow> r = [] \<or> hd r = CHR ''/'' \<Longrightarrow>
     takeWhile (\<lambda>c. c \<noteq> CHR ''/'') (n @ r) = n"
  by (cases r) (auto simp: takeWhile_tail)

lemma under_unique:
  assumes "under q n x" "under q m x" "CHR ''/'' \<notin> set n" "CHR ''/'' \<notin> set m"
  shows "n = m"
proof -
  from assms(1) obtain r where r: "x = base q @ n @ r" "r = [] \<or> hd r = CHR ''/''"
    by (auto simp: under_def)
  from assms(2) obtain r' where r': "x = base q @ m @ r'" "r' = [] \<or> hd r' = CHR ''/''"
    by (auto simp: under_def)
  have "n @ r = m @ r'" using r(1) r'(1) by simp
  then have "takeWhile (\<lambda>c. c \<noteq> CHR ''/'') (n @ r) = takeWhile (\<lambda>c. c \<noteq> CHR ''/'') (m @ r')"
    by simp
  then show ?thesis
    using takeWhile_name[OF assms(3) r(2)] takeWhile_name[OF assms(4) r'(2)] by simp
qed

lemma wellNamedEntries_entry:
  "wellNamedEntries es \<Longrightarrow> (n, nd) \<in> set es \<Longrightarrow> n \<noteq> [] \<and> CHR ''/'' \<notin> set n"
  by (induction es) auto

lemma wellNamedEntries_names:
  "wellNamedEntries es \<Longrightarrow> n \<in> fst ` set es \<Longrightarrow> n \<noteq> [] \<and> CHR ''/'' \<notin> set n"
  using wellNamedEntries_entry by fastforce

lemma under_longer: "under q n x \<Longrightarrow> n \<noteq> [] \<Longrightarrow> x \<noteq> q"
proof
  assume "under q n x" "n \<noteq> []" "x = q"
  then obtain r where "q = base q @ n @ r" by (auto simp: under_def)
  then have "length q = length (base q) + length n + length r" by (metis length_append add.assoc)
  moreover have "length q \<le> length (base q)" by (simp add: base_def)
  ultimately show False using \<open>n \<noteq> []\<close> by simp
qed

lemma paths_under:
  "wellNamed nd \<Longrightarrow> x \<in> set (dirPaths q nd) \<Longrightarrow>
     x = q \<or> (\<exists>n. n \<noteq> [] \<and> CHR ''/'' \<notin> set n \<and> under q n x)"
  "wellNamedEntries es \<Longrightarrow> x \<in> set (entryDirPaths q es) \<Longrightarrow> \<exists>n \<in> fst ` set es. under q n x"
proof (induction q nd and q es arbitrary: x and x rule: dirPaths_entryDirPaths.induct)
  case (1 p i l es)
  show ?case
  proof (cases "x = p")
    case True
    then show ?thesis by simp
  next
    case False
    then have "x \<in> set (entryDirPaths p es)" using "1.prems" by simp
    moreover have "wellNamedEntries es" using "1.prems" by simp
    ultimately obtain n where n: "n \<in> fst ` set es" "under p n x" using "1.IH" by blast
    then show ?thesis using wellNamedEntries_names[OF \<open>wellNamedEntries es\<close> n(1)] by blast
  qed
next
  case (6 d name i l sub es)
  have nm: "name \<noteq> []" "CHR ''/'' \<notin> set name" "wellNamed (Directory i l sub)" "wellNamedEntries es"
    using "6.prems"(1) by simp_all
  from "6.prems"(2) consider
      (child) "x \<in> set (dirPaths (join d name) (Directory i l sub))"
    | (rest) "x \<in> set (entryDirPaths d es)" by auto
  then show ?case
  proof cases
    case child
    from "6.IH"(1)[OF nm(3) child] have "under d name x"
    proof (elim disjE exE conjE)
      assume "x = join d name"
      then show ?thesis by (simp add: under_def join_base)
    next
      fix m assume "m \<noteq> []" "CHR ''/'' \<notin> set m" "under (join d name) m x"
      then obtain r where "x = base (base d @ name) @ m @ r"
        by (auto simp: under_def join_base)
      then have "x = base d @ name @ (''/'' @ m @ r)"
        using base_child[OF nm(1,2)] by simp
      then show ?thesis unfolding under_def by (intro exI[of _ "''/'' @ m @ r"]) simp
    qed
    then show ?thesis by auto
  next
    case rest
    then show ?thesis using "6.IH"(2)[OF nm(4)] by auto
  qed
qed auto

lemma dirPaths_distinct:
  "wellNamed nd \<Longrightarrow> distinct (dirPaths q nd)"
  "wellNamedEntries es \<Longrightarrow> distinct (map fst es) \<Longrightarrow> distinct (entryDirPaths q es)"
proof (induction q nd and q es rule: dirPaths_entryDirPaths.induct)
  case (1 p i l es)
  have w: "wellNamedEntries es" "distinct (map fst es)" using "1.prems" by simp_all
  have "p \<notin> set (entryDirPaths p es)"
  proof
    assume "p \<in> set (entryDirPaths p es)"
    then obtain n where n: "n \<in> fst ` set es" "under p n p" using paths_under(2)[OF w(1)] by blast
    then show False using under_longer wellNamedEntries_names[OF w(1) n(1)] by blast
  qed
  then show ?case using "1.IH" w by simp
next
  case (6 d name i l sub es)
  have nm: "name \<noteq> []" "CHR ''/'' \<notin> set name" "wellNamed (Directory i l sub)" "wellNamedEntries es"
    "name \<notin> fst ` set es" "distinct (map fst es)"
    using "6.prems" by simp_all
  have disj: "set (dirPaths (join d name) (Directory i l sub)) \<inter> set (entryDirPaths d es) = {}"
  proof (rule ccontr)
    assume "\<not> ?thesis"
    then obtain x where x: "x \<in> set (dirPaths (join d name) (Directory i l sub))"
      "x \<in> set (entryDirPaths d es)" by auto
    have "wellNamedEntries [(name, Directory i l sub)]" using nm by simp
    moreover have "x \<in> set (entryDirPaths d [(name, Directory i l sub)])" using x(1) by simp
    ultimately have u1: "under d name x"
      using paths_under(2)[of "[(name, Directory i l sub)]" x d] by simp
    obtain m where m: "m \<in> fst ` set es" "under d m x"
      using paths_under(2)[OF nm(4) x(2)] by blast
    have "name = m"
      using under_unique[OF u1 m(2) nm(2)] wellNamedEntries_names[OF nm(4) m(1)] by simp
    then show False using m(1) nm(5) by simp
  qed
  show ?case using "6.IH" nm disj by simp
qed simp_all

lemma analyze_mt_unique:
  assumes "distinct (dirPaths p nd)" "analyze_mt eqv cfg p nd s r"
  shows "r = fold_mset apply_op newAnalysis_mt (ops (processDirectory eqv cfg p nd))"
proof -
  have "processedDirs newAnalysis_mt = {}"
    by (simp add: newAnalysis_mt_def analysis.extend_def analysis_mt.fields_def)
  then have "fresh (ops (processDirectory eqv cfg p nd)) newAnalysis_mt"
    using assms(1) by (rule fresh_processDirectory[rotated])
  moreover have "runs (processDirectory eqv cfg p nd) newAnalysis_mt r"
    using assms(2) by (simp add: analyze_mt_def reset_eq)
  ultimately show ?thesis by (rule runs_effect[rotated])
qed

text \<open>
  Claim C2. On every tree whose directory listings are well named, a run of the
  multithreaded analyzer exists for every worker count, and any two runs, under any
  two worker counts and any interleavings of the workers, end in the same state: the
  same per-type counts and byte totals and the same scalar counters. The run with one
  worker is the sequential traversal, a run with more the fan-out.
\<close>

theorem worker_count_invariance:
  "wellNamed nd \<Longrightarrow>
     (\<exists>r. analyze_mt eqv (cfg\<lparr>numThreads := n\<rparr>) p nd s r)
   \<and> (\<forall>m s1 s2 r1 r2.
         analyze_mt eqv (cfg\<lparr>numThreads := n\<rparr>) p nd s1 r1 \<longrightarrow>
         analyze_mt eqv (cfg\<lparr>numThreads := m\<rparr>) p nd s2 r2 \<longrightarrow>
         r1 = r2)"
proof (intro conjI allI impI)
  show "\<exists>r. analyze_mt eqv (cfg\<lparr>numThreads := n\<rparr>) p nd s r"
    using analyze_mt_exec by blast
next
  fix m s1 s2 r1 r2
  assume w: "wellNamed nd"
    and 1: "analyze_mt eqv (cfg\<lparr>numThreads := n\<rparr>) p nd s1 r1"
    and 2: "analyze_mt eqv (cfg\<lparr>numThreads := m\<rparr>) p nd s2 r2"
  have d: "distinct (dirPaths p nd)"
    using w by (rule dirPaths_distinct(1))
  have "r1 = fold_mset apply_op newAnalysis_mt (ops (processDirectory eqv (cfg\<lparr>numThreads := n\<rparr>) p nd))"
    using d 1 by (rule analyze_mt_unique)
  moreover have "r2 = fold_mset apply_op newAnalysis_mt (ops (processDirectory eqv (cfg\<lparr>numThreads := m\<rparr>) p nd))"
    using d 2 by (rule analyze_mt_unique)
  ultimately show "r1 = r2"
    by (simp add: ops_processDirectory_threads)
qed

lemma sampleTree_wellNamed: "wellNamed sampleTree"
  by (simp add: sampleTree_def)

theorem worker_count_invariance_witness:
  "exec (processDirectory noEquivalent (newConfig_mt False 1) ''root'' sampleTree) (reset newAnalysis_mt)
   = exec (processDirectory noEquivalent (newConfig_mt False 4) ''root'' sampleTree) (reset newAnalysis_mt)"
proof -
  have c: "newConfig_mt False 1 = (newConfig_mt False 1)\<lparr>numThreads := 1\<rparr>"
    "newConfig_mt False 4 = (newConfig_mt False 1)\<lparr>numThreads := 4\<rparr>"
    by (simp_all add: newConfig_mt_def)
  have 1: "analyze_mt noEquivalent ((newConfig_mt False 1)\<lparr>numThreads := 1\<rparr>) ''root'' sampleTree newAnalysis_mt
       (exec (processDirectory noEquivalent (newConfig_mt False 1) ''root'' sampleTree) (reset newAnalysis_mt))"
    using analyze_mt_exec[of noEquivalent "newConfig_mt False 1"] c(1) by simp
  have 2: "analyze_mt noEquivalent ((newConfig_mt False 1)\<lparr>numThreads := 4\<rparr>) ''root'' sampleTree newAnalysis_mt
       (exec (processDirectory noEquivalent (newConfig_mt False 4) ''root'' sampleTree) (reset newAnalysis_mt))"
    using analyze_mt_exec[of noEquivalent "newConfig_mt False 4"] c(2) by simp
  from worker_count_invariance[OF sampleTree_wellNamed, where eqv = noEquivalent
      and cfg = "newConfig_mt False 1" and n = 1 and s = newAnalysis_mt and p = "''root''",
      THEN conjunct2] 1 2
  show ?thesis by blast
qed

section \<open>The state at the start of analyze\<close>

text \<open>
  Claim C4, as amended. In the multithreaded variant \<^verbatim>\<open>analyze\<close> starts from the empty
  state whatever state the analyzer was in, so its results are the same after any
  earlier call, and there is one.
\<close>

theorem analyze_mt_resets:
  "(analyze_mt eqv cfg p nd s r \<longleftrightarrow> analyze_mt eqv cfg p nd s' r)
   \<and> (\<exists>r. analyze_mt eqv cfg p nd s r)
   \<and> stats (reset s) = Map.empty \<and> totalFiles (reset s) = 0 \<and> totalSize (reset s) = 0
   \<and> hiddenFiles (reset s) = 0 \<and> hiddenSize (reset s) = 0 \<and> processedDirs (reset s) = {}"
proof -
  have a: "analyze_mt eqv cfg p nd s r \<longleftrightarrow> analyze_mt eqv cfg p nd s' r"
    by (simp add: analyze_mt_def reset_eq)
  have b: "\<exists>r. analyze_mt eqv cfg p nd s r"
    using analyze_mt_exec by blast
  have c: "stats (reset s) = Map.empty \<and> totalFiles (reset s) = 0 \<and> totalSize (reset s) = 0
     \<and> hiddenFiles (reset s) = 0 \<and> hiddenSize (reset s) = 0 \<and> processedDirs (reset s) = {}"
    by (simp add: reset_def)
  from a b c show ?thesis by (intro conjI) simp_all
qed

lemma getFileType_a_txt: "getFileType ''root/a.txt'' = ''.txt''"
  by code_simp

text \<open>
  Against claim C4 as stated: \<^verbatim>\<open>analyze\<close> of \<^verbatim>\<open>da.cpp\<close> resets nothing. A second call on
  the same analyzer and the same tree, one file of 100 bytes, ends with two files and
  200 bytes.
\<close>

theorem analyze_accumulates:
  "analyze noEquivalent (newConfig False) ''root'' oneFileTree newAnalysis = Inr afterOneRun
   \<and> analyze noEquivalent (newConfig False) ''root'' oneFileTree afterOneRun = Inr afterTwoRuns
   \<and> afterTwoRuns \<noteq> afterOneRun"
proof -
  have s: "shouldExclude noEquivalent (newConfig False) x = False" for x
    by (simp add: shouldExclude_def newConfig_def)
  have w: "isWithinSizeThreshold (newConfig False) 100"
    by (simp add: isWithinSizeThreshold_def newConfig_def defaultThreshold_def SIZE_MAX_def)
  have i: "shouldInclude (newConfig False) x" for x
    by (simp add: shouldInclude_def newConfig_def)
  have h: "\<not> startsWithDot ''root/a.txt''"
    by (simp add: startsWithDot_def filename_def)
  have j: "join ''root'' ''a.txt'' = ''root/a.txt''" by (simp add: join_def)
  have 1: "analyzeFile (newConfig False) ''root/a.txt'' (Some 100) newAnalysis = (False, afterOneRun)"
    by (simp add: analyzeFile_def w i h getFileType_a_txt statsUpdate_def update_def
        newAnalysis_def afterOneRun_def noStats_def SIZE_MAX_def)
  have 2: "analyzeFile (newConfig False) ''root/a.txt'' (Some 100) afterOneRun = (False, afterTwoRuns)"
    by (simp add: analyzeFile_def w i h getFileType_a_txt statsUpdate_def update_def
        afterTwoRuns_def afterOneRun_def noStats_def SIZE_MAX_def)
  have 3: "afterTwoRuns \<noteq> afterOneRun"
    by (simp add: afterTwoRuns_def afterOneRun_def)
  show ?thesis using 1 2 3 by (simp add: oneFileTree_def s j)
qed

section \<open>Evaluating a traversal\<close>

lemma processDirectory_scan:
  "scanEntries eqv cfg p (listing nd) = (gits, files, subs) \<Longrightarrow>
   processDirectory eqv cfg p nd =
     Claim p (identity nd)
       (Seq (gits @ map (\<lambda>f. processFile cfg (fst f) (snd f)) files @
             [if numThreads cfg > 1 \<and> length subs > 1
              then Async (map (\<lambda>sd. processDirectory eqv cfg (fst sd) (snd sd)) subs)
              else Seq (map (\<lambda>sd. processDirectory eqv cfg (fst sd) (snd sd)) subs)]))"
  by (subst processDirectory.simps) simp

lemma analyze_mt_result:
  assumes "distinct (dirPaths p nd)" "analyze_mt eqv cfg p nd s r"
  shows "r = exec (processDirectory eqv cfg p nd) newAnalysis_mt"
proof -
  have "processedDirs newAnalysis_mt = {}"
    by (simp add: newAnalysis_mt_def analysis.extend_def analysis_mt.fields_def)
  then have "fresh (ops (processDirectory eqv cfg p nd)) newAnalysis_mt"
    using assms(1) by (rule fresh_processDirectory[rotated])
  moreover have "runs (processDirectory eqv cfg p nd) newAnalysis_mt r"
    using assms(2) by (simp add: analyze_mt_def reset_eq)
  ultimately show ?thesis by (rule runs_exec[rotated])
qed

lemma noExclude_mt: "shouldExclude_mt eqv (newConfig_mt sh hw) x = False"
  by (simp add: shouldExclude_mt_def newConfig_mt_def)
lemma within_default: "isWithinSizeThreshold (newConfig_mt sh hw) sz"
  by (simp add: isWithinSizeThreshold_def newConfig_mt_def defaultThreshold_def SIZE_MAX_def)

lemma include_default: "shouldInclude (newConfig_mt sh hw) x"
  by (simp add: shouldInclude_def newConfig_mt_def)

subsection \<open>The two variants on one tree\<close>

text \<open>
  On the sample tree every run of the multithreaded analyzer counts four files and 7666
  bytes, two hidden entries and 107 hidden bytes. The analyzer of \<^verbatim>\<open>da.cpp\<close> counts three
  files and 2659 bytes on the same tree (lemma \<open>sample_da_completes\<close>): the size of
  \<^verbatim>\<open>gone\<close> cannot be read, and its loop then passes over the next entry, the directory
  \<^verbatim>\<open>src\<close>, with the error code still set.
\<close>

lemma getFileType_sample:
  "getFileType ''root/B.TXT'' = ''.txt''"
  "getFileType ''root/src/main'' = ''[no extension]''"
  "getFileType ''root/doc/x.md'' = ''.md''"
  by code_simp+

lemma sample_mt_exec:
  "exec (processDirectory noEquivalent (newConfig_mt False 4) ''root'' sampleTree) newAnalysis_mt =
     newAnalysis_mt\<lparr>stats := [''.txt'' \<mapsto> \<lparr>ft_count = 2, ft_totalSize = 2548\<rparr>,
                              ''[no extension]'' \<mapsto> \<lparr>ft_count = 1, ft_totalSize = 5000\<rparr>,
                              ''.md'' \<mapsto> \<lparr>ft_count = 1, ft_totalSize = 11\<rparr>],
                    totalFiles := 4, totalSize := 7666, hiddenFiles := 2, hiddenSize := 107,
                    processedDirs := {''root/doc'', ''root/src'', ''root''},
                    listed := {#(''root'', 1), (''root/src'', 2), (''root/doc'', 4)#}\<rparr>"
proof -
  let ?cfg = "newConfig_mt False 4"
  let ?src = "Directory 2 False
         [(''main'', RegularFile (Some 5000)),
          (''.git'', Directory 3 False [(''HEAD'', RegularFile (Some 7))])]"
  let ?doc = "Directory 4 False [(''x.md'', RegularFile (Some 11))]"
  have sc: "scanEntries noEquivalent ?cfg ''root'' (listing sampleTree) =
      ([], [(''root/a.txt'', Some 500), (''root/B.TXT'', Some 2048), (''root/.env'', Some 100),
            (''root/gone'', None)],
       [(''root/src'', ?src), (''root/doc'', ?doc)])"
    by (simp add: sampleTree_def noExclude_mt join_def filename_def)
  have sc_src: "scanEntries noEquivalent ?cfg ''root/src'' (listing ?src) =
      ([processGit ?cfg (Directory 3 False [(''HEAD'', RegularFile (Some 7))])],
       [(''root/src/main'', Some 5000)], [])"
    by (simp add: noExclude_mt join_def filename_def)
  have sc_doc: "scanEntries noEquivalent ?cfg ''root/doc'' (listing ?doc) =
      ([], [(''root/doc/x.md'', Some 11)], [])"
    by (simp add: noExclude_mt join_def filename_def)
  have d: "startsWithDot ''root/.env''" "\<not> startsWithDot ''root/a.txt''"
    "\<not> startsWithDot ''root/B.TXT''" "\<not> startsWithDot ''root/src/main''"
    "\<not> startsWithDot ''root/doc/x.md''"
    by (simp_all add: startsWithDot_def filename_def)
  have sh: "\<not> showHidden ?cfg" "numThreads ?cfg = 4" by (simp_all add: newConfig_mt_def)
  show ?thesis
    apply (subst processDirectory_scan[OF sc])
    apply (simp add: processFile_def within_default include_default d sh getFileType_sample getFileType_a_txt
          sampleTree_def claimDir_def)
    apply (subst processDirectory_scan[OF sc_src])
    apply (subst processDirectory_scan[OF sc_doc])
    apply (simp add: processFile_def processGit_def within_default include_default d sh getFileType_sample
          newAnalysis_mt_def newAnalysis_def analysis.extend_def analysis_mt.fields_def claimDir_def
          update_mt_def noStats_def)
    done
qed

lemma sample_mt_completes:
  assumes "analyze_mt noEquivalent (newConfig_mt False 4) ''root'' sampleTree s r"
  shows "totalFiles r = 4 \<and> totalSize r = 7666 \<and> hiddenFiles r = 2 \<and> hiddenSize r = 107"
proof -
  have "distinct (dirPaths ''root'' sampleTree)" by (simp add: sampleTree_def join_def)
  then have "r = exec (processDirectory noEquivalent (newConfig_mt False 4) ''root'' sampleTree) newAnalysis_mt"
    using assms by (rule analyze_mt_result)
  then show ?thesis by (simp add: sample_mt_exec)
qed

section \<open>The set of processed directories\<close>

text \<open>
  A directory reached under two names: \<^verbatim>\<open>root/b\<close> is a symbolic link to \<^verbatim>\<open>root/a\<close>, so
  both entries are the directory of identity 7, which holds one file of 100 bytes.
\<close>

definition aliasTree :: node where
  "aliasTree = Directory 1 False
     [(''a'', Directory 7 False [(''f.txt'', RegularFile (Some 100))]),
      (''b'', Directory 7 True [(''f.txt'', RegularFile (Some 100))])]"

text \<open>
  Every path string was claimed at most once, and the claimed path strings are the
  set of processed directories.
\<close>

definition claimedOnce :: "analysis_mt \<Rightarrow> bool" where
  "claimedOnce s \<longleftrightarrow>
     (\<forall>q. count (image_mset fst (listed s)) q \<le> 1) \<and> fst ` set_mset (listed s) = processedDirs s"

inductive_cases step_DoneE: "step Done s t' s'"
inductive_cases step_ClaimE: "step (Claim p i t) s t' s'"
inductive_cases runs_DoneE: "runs Done s s'"
inductive_cases runs_ClaimE: "runs (Claim p i t) s s'"

lemma runs_Done: "runs Done s s' \<Longrightarrow> s' = s"
  by (erule runs_DoneE) (auto elim: step_DoneE)

lemma runs_claim_seen: "p \<in> processedDirs s \<Longrightarrow> runs (Claim p i t) s s' \<Longrightarrow> s' = s"
  by (erule runs_ClaimE) (auto elim!: step_ClaimE dest: runs_Done)

lemma perform_listed: "listed (perform a s) = listed s"
  by (cases a) auto

lemma claimedOnce_perform: "claimedOnce s \<Longrightarrow> claimedOnce (perform a s)"
  by (simp add: claimedOnce_def perform_listed)

lemma claimedOnce_claimDir:
  assumes "claimedOnce s" "p \<notin> processedDirs s"
  shows "claimedOnce (claimDir p i s)"
proof -
  have "p \<notin> fst ` set_mset (listed s)" using assms by (simp add: claimedOnce_def)
  then have "p \<notin># image_mset fst (listed s)" by simp
  then have z: "count (image_mset fst (listed s)) p = 0" by (simp add: count_eq_zero_iff)
  have "count (image_mset fst (listed (claimDir p i s))) q \<le> 1" for q
    using assms(1) z by (auto simp: claimedOnce_def claimDir_def)
  moreover have "fst ` set_mset (listed (claimDir p i s)) = processedDirs (claimDir p i s)"
    using assms(1) by (auto simp: claimedOnce_def claimDir_def)
  ultimately show ?thesis by (simp add: claimedOnce_def)
qed

lemma step_claimedOnce: "step t s t' s' \<Longrightarrow> claimedOnce s \<Longrightarrow> claimedOnce s'"
  by (induction rule: step.induct) (auto simp: claimedOnce_perform claimedOnce_claimDir)

lemma runs_claimedOnce: "runs t s s' \<Longrightarrow> claimedOnce s \<Longrightarrow> claimedOnce s'"
  by (induction rule: runs.induct) (auto dest: step_claimedOnce)

lemma claimedOnce_new: "claimedOnce newAnalysis_mt"
  by (simp add: claimedOnce_def newAnalysis_mt_def analysis.extend_def analysis_mt.fields_def)

text \<open>
  Claim C3, as amended. \<^verbatim>\<open>processDirectory\<close> starts with the claim of its path string,
  the test and the insertion under one lock, before anything is listed. When the path
  string is already in the set, the call changes nothing, whatever the interleaving.
  After a run of \<^verbatim>\<open>analyze\<close> every path string was listed at most once, and the listed
  path strings are the set of processed directories.
\<close>

theorem path_claimed_once:
  "(\<exists>t. processDirectory eqv cfg p nd = Claim p (identity nd) t)
   \<and> (p \<in> processedDirs s \<longrightarrow> (\<forall>s'. runs (processDirectory eqv cfg p nd) s s' \<longrightarrow> s' = s))
   \<and> (\<forall>r. analyze_mt eqv cfg p nd s r \<longrightarrow> claimedOnce r)"
proof (intro conjI allI impI)
  show "\<exists>t. processDirectory eqv cfg p nd = Claim p (identity nd) t"
    by (subst processDirectory.simps) blast
next
  fix s'
  assume "p \<in> processedDirs s" "runs (processDirectory eqv cfg p nd) s s'"
  then show "s' = s"
    by (subst (asm) processDirectory.simps) (rule runs_claim_seen)
next
  fix r
  assume "analyze_mt eqv cfg p nd s r"
  then have "runs (processDirectory eqv cfg p nd) newAnalysis_mt r"
    by (simp add: analyze_mt_def reset_eq)
  then show "claimedOnce r" using claimedOnce_new by (rule runs_claimedOnce)
qed

definition aliasTask :: task where
  "aliasTask =
     Claim ''root'' 1 (Seq [Seq
       [Claim ''root/a'' 7
          (Seq [Seq [Atomic (AddTotalSize 100), Atomic (UpdateStats ''.txt'' 100)], Seq []]),
        Claim ''root/b'' 7
          (Seq [Seq [Atomic (AddTotalSize 100), Atomic (UpdateStats ''.txt'' 100)], Seq []])]])"

lemma getFileType_f_txt: "getFileType ''root/a/f.txt'' = ''.txt''" "getFileType ''root/b/f.txt'' = ''.txt''"
  by code_simp+

lemma alias_task:
  "processDirectory noEquivalent (newConfig_mt False 0) ''root'' aliasTree = aliasTask"
proof -
  let ?C = "newConfig_mt False 0"
  let ?A = "Directory 7 False [(''f.txt'', RegularFile (Some 100))]"
  let ?B = "Directory 7 True [(''f.txt'', RegularFile (Some 100))]"
  have nt: "numThreads ?C = 1" "\<not> showHidden ?C" by (simp_all add: newConfig_mt_def)
  have f: "processFile ?C ''root/a/f.txt'' (Some 100) =
             Seq [Atomic (AddTotalSize 100), Atomic (UpdateStats ''.txt'' 100)]"
    "processFile ?C ''root/b/f.txt'' (Some 100) =
             Seq [Atomic (AddTotalSize 100), Atomic (UpdateStats ''.txt'' 100)]"
    by (simp_all add: processFile_def within_default include_default getFileType_f_txt
        startsWithDot_def filename_def)
  have a: "scanEntries noEquivalent ?C ''root/a'' (listing ?A) = ([], [(''root/a/f.txt'', Some 100)], [])"
    by (simp add: noExclude_mt join_def)
  have b: "scanEntries noEquivalent ?C ''root/b'' (listing ?B) = ([], [(''root/b/f.txt'', Some 100)], [])"
    by (simp add: noExclude_mt join_def)
  have r: "scanEntries noEquivalent ?C ''root'' (listing aliasTree) =
             ([], [], [(''root/a'', ?A), (''root/b'', ?B)])"
    by (simp add: aliasTree_def noExclude_mt join_def filename_def)
  have ta: "processDirectory noEquivalent ?C ''root/a'' ?A =
        Claim ''root/a'' 7
          (Seq [Seq [Atomic (AddTotalSize 100), Atomic (UpdateStats ''.txt'' 100)], Seq []])"
    by (subst processDirectory_scan[OF a]) (simp add: nt f)
  have tb: "processDirectory noEquivalent ?C ''root/b'' ?B =
        Claim ''root/b'' 7
          (Seq [Seq [Atomic (AddTotalSize 100), Atomic (UpdateStats ''.txt'' 100)], Seq []])"
    by (subst processDirectory_scan[OF b]) (simp add: nt f)
  show ?thesis
    by (subst processDirectory_scan[OF r]) (simp add: nt ta tb aliasTask_def aliasTree_def)
qed

lemma alias_exec:
  "listed (exec aliasTask newAnalysis_mt) = {#(''root/b'', 7), (''root/a'', 7), (''root'', 1)#}"
  "totalFiles (exec aliasTask newAnalysis_mt) = 2"
  "totalSize (exec aliasTask newAnalysis_mt) = 200"
  by (simp_all add: aliasTask_def newAnalysis_mt_def newAnalysis_def analysis.extend_def
      analysis_mt.fields_def claimDir_def)

text \<open>
  Against claim C3 as stated: the set holds path strings, not canonical identities. In
  the tree with the alias the directory of identity 7 is listed twice, under its two
  path strings, and its one file is counted twice. The sequential analyzer, which has
  no such set, counts it twice as well.
\<close>

lemma alias_da:
  "case analyze noEquivalent (newConfig False) ''root'' aliasTree newAnalysis of
     Inr st \<Rightarrow> totalFiles st = 2 \<and> totalSize st = 200 | Inl e \<Rightarrow> False"
  by code_simp

theorem alias_listed_twice:
  "analyze_mt noEquivalent (newConfig_mt False 0) ''root'' aliasTree newAnalysis_mt (exec aliasTask newAnalysis_mt)
   \<and> count (image_mset snd (listed (exec aliasTask newAnalysis_mt))) 7 = 2
   \<and> totalFiles (exec aliasTask newAnalysis_mt) = 2
   \<and> totalSize (exec aliasTask newAnalysis_mt) = 200
   \<and> (case analyze noEquivalent (newConfig False) ''root'' aliasTree newAnalysis of
        Inr st \<Rightarrow> totalFiles st = 2 \<and> totalSize st = 200 | Inl e \<Rightarrow> False)"
  using analyze_mt_exec[of noEquivalent "newConfig_mt False 0" "''root''" aliasTree newAnalysis_mt] alias_da
  by (simp add: alias_task reset_eq alias_exec)

theorem path_claimed_once_witness:
  "claimedOnce (exec aliasTask newAnalysis_mt)
   \<and> exec aliasTask (exec aliasTask newAnalysis_mt) = exec aliasTask newAnalysis_mt"
proof -
  note t = path_claimed_once[of noEquivalent "newConfig_mt False 0" "''root''" aliasTree]
  have r: "analyze_mt noEquivalent (newConfig_mt False 0) ''root'' aliasTree newAnalysis_mt (exec aliasTask newAnalysis_mt)"
    using analyze_mt_exec[of noEquivalent "newConfig_mt False 0" "''root''" aliasTree newAnalysis_mt]
    by (simp add: alias_task reset_eq)
  have a: "claimedOnce (exec aliasTask newAnalysis_mt)"
    using t[of newAnalysis_mt, THEN conjunct2, THEN conjunct2] r by blast
  have m: "''root'' \<in> processedDirs (exec aliasTask newAnalysis_mt)"
    by (simp add: aliasTask_def newAnalysis_mt_def newAnalysis_def analysis.extend_def
      analysis_mt.fields_def claimDir_def)
  have "runs (processDirectory noEquivalent (newConfig_mt False 0) ''root'' aliasTree)
          (exec aliasTask newAnalysis_mt) (exec aliasTask (exec aliasTask newAnalysis_mt))"
    using exec_runs[of aliasTask] by (simp add: alias_task)
  then have b: "exec aliasTask (exec aliasTask newAnalysis_mt) = exec aliasTask newAnalysis_mt"
    using t[of "exec aliasTask newAnalysis_mt", THEN conjunct2, THEN conjunct1] m by blast
  from a b show ?thesis ..
qed

section \<open>Hidden files\<close>

definition envTree :: node where
  "envTree = Directory 1 False [(''.env'', RegularFile (Some 100))]"

text \<open>
  Claim C8. For a regular file that passes the size and the type filter and whose name
  starts with a period: when hidden files are not shown, both analyzers increment
  \<open>hiddenFiles\<close>, add the size to \<open>hiddenSize\<close> and \<open>totalSize\<close>, and leave the per-type
  map and \<open>totalFiles\<close> as they are; when hidden files are shown, the file is treated
  as any file of its type: the hidden counters stay, the per-type entry is updated,
  and \<open>totalFiles\<close> and \<open>totalSize\<close> count it.
\<close>

theorem hidden_file_accounting:
  "isWithinSizeThreshold cfg sz \<Longrightarrow> shouldInclude cfg (getFileType p) \<Longrightarrow> startsWithDot p \<Longrightarrow>
     (\<not> showHidden cfg \<longrightarrow>
        analyzeFile cfg p (Some sz) st =
          (False, st\<lparr>hiddenFiles := hiddenFiles st + 1, hiddenSize := hiddenSize st + sz,
                      totalSize := totalSize st + sz\<rparr>)
      \<and> exec (processFile cfg p (Some sz)) s =
          s\<lparr>totalSize := totalSize s + sz, hiddenFiles := hiddenFiles s + 1,
            hiddenSize := hiddenSize s + sz\<rparr>)
   \<and> (showHidden cfg \<longrightarrow>
        (\<forall>q. getFileType q = getFileType p \<longrightarrow>
              analyzeFile cfg q (Some sz) st = analyzeFile cfg p (Some sz) st
            \<and> processFile cfg q (Some sz) = processFile cfg p (Some sz))
      \<and> hiddenFiles (snd (analyzeFile cfg p (Some sz) st)) = hiddenFiles st
      \<and> hiddenSize (snd (analyzeFile cfg p (Some sz) st)) = hiddenSize st
      \<and> (fst (statsUpdate (getFileType p) sz st) = None \<longrightarrow>
           snd (analyzeFile cfg p (Some sz) st) =
             (snd (statsUpdate (getFileType p) sz st))
               \<lparr>totalFiles := totalFiles st + 1, totalSize := totalSize st + sz\<rparr>)
      \<and> exec (processFile cfg p (Some sz)) s =
           perform (UpdateStats (getFileType p) sz) (perform (AddTotalSize sz) s))
   \<and> (filename p = ''.env'' \<longrightarrow> getFileType p = ''[dotfile]'')"
proof (intro conjI impI allI)
  assume a: "isWithinSizeThreshold cfg sz" "shouldInclude cfg (getFileType p)" "startsWithDot p"
  {
    assume f: "filename p = ''.env''"
    then have "extension p = []" by (intro extension_dotfile[of p "''env''"]) simp_all
    moreover have "p \<noteq> []" using f by (auto simp: filename_def)
    ultimately show "getFileType p = ''[dotfile]''" using f by (simp add: getFileType_eq)
  }
  {
    assume h: "\<not> showHidden cfg"
    show "analyzeFile cfg p (Some sz) st =
          (False, st\<lparr>hiddenFiles := hiddenFiles st + 1, hiddenSize := hiddenSize st + sz,
                      totalSize := totalSize st + sz\<rparr>)"
      using a h by (simp add: analyzeFile_def)
    show "exec (processFile cfg p (Some sz)) s =
          s\<lparr>totalSize := totalSize s + sz, hiddenFiles := hiddenFiles s + 1,
            hiddenSize := hiddenSize s + sz\<rparr>"
      using a h by (simp add: processFile_def)
  }
  {
    assume h: "showHidden cfg"
    {
      fix q assume q: "getFileType q = getFileType p"
      show "analyzeFile cfg q (Some sz) st = analyzeFile cfg p (Some sz) st"
        using a h q by (simp add: analyzeFile_def)
      show "processFile cfg q (Some sz) = processFile cfg p (Some sz)"
        using a h q by (simp add: processFile_def)
    }
    show "hiddenFiles (snd (analyzeFile cfg p (Some sz) st)) = hiddenFiles st"
      using a h by (simp add: analyzeFile_def statsUpdate_def Let_def split: prod.splits option.splits)
    show "hiddenSize (snd (analyzeFile cfg p (Some sz) st)) = hiddenSize st"
      using a h by (simp add: analyzeFile_def statsUpdate_def Let_def split: prod.splits option.splits)
    show "exec (processFile cfg p (Some sz)) s =
           perform (UpdateStats (getFileType p) sz) (perform (AddTotalSize sz) s)"
      using a h by (simp add: processFile_def)
    {
      assume n: "fst (statsUpdate (getFileType p) sz st) = None"
      show "snd (analyzeFile cfg p (Some sz) st) =
             (snd (statsUpdate (getFileType p) sz st))
               \<lparr>totalFiles := totalFiles st + 1, totalSize := totalSize st + sz\<rparr>"
        using a h n by (simp add: analyzeFile_def statsUpdate_def Let_def split: prod.splits)
    }
  }
qed

lemma getFileType_env: "getFileType ''root/.env'' = ''[dotfile]''"
  by code_simp

lemma env_da:
  "case analyze noEquivalent (newConfig False) ''root'' envTree newAnalysis of
     Inr st \<Rightarrow> hiddenFiles st = 1 \<and> hiddenSize st = 100 \<and> totalSize st = 100 \<and> totalFiles st = 0
             \<and> stats st ''[dotfile]'' = None
   | Inl e \<Rightarrow> False"
  "case analyze noEquivalent (newConfig True) ''root'' envTree newAnalysis of
     Inr st \<Rightarrow> hiddenFiles st = 0 \<and> hiddenSize st = 0 \<and> totalSize st = 100 \<and> totalFiles st = 1
             \<and> stats st ''[dotfile]'' = Some \<lparr>ft_count = 1, ft_totalSize = 100\<rparr>
   | Inl e \<Rightarrow> False"
  by code_simp+

lemma env_mt:
  "exec (processDirectory noEquivalent (newConfig_mt False 4) ''root'' envTree) newAnalysis_mt =
     newAnalysis_mt\<lparr>totalSize := 100, hiddenFiles := 1, hiddenSize := 100,
                    processedDirs := {''root''}, listed := {#(''root'', 1)#}\<rparr>"
  "exec (processDirectory noEquivalent (newConfig_mt True 4) ''root'' envTree) newAnalysis_mt =
     newAnalysis_mt\<lparr>stats := [''[dotfile]'' \<mapsto> \<lparr>ft_count = 1, ft_totalSize = 100\<rparr>],
                    totalFiles := 1, totalSize := 100,
                    processedDirs := {''root''}, listed := {#(''root'', 1)#}\<rparr>"
proof -
  have sc: "scanEntries noEquivalent (newConfig_mt sh 4) ''root'' (listing envTree) =
              ([], [(''root/.env'', Some 100)], [])" for sh
    by (simp add: envTree_def noExclude_mt join_def)
  have d: "startsWithDot ''root/.env''" by (simp add: startsWithDot_def filename_def)
  have sh: "\<not> showHidden (newConfig_mt False 4)" "showHidden (newConfig_mt True 4)"
    by (simp_all add: newConfig_mt_def)
  show "exec (processDirectory noEquivalent (newConfig_mt False 4) ''root'' envTree) newAnalysis_mt =
     newAnalysis_mt\<lparr>totalSize := 100, hiddenFiles := 1, hiddenSize := 100,
                    processedDirs := {''root''}, listed := {#(''root'', 1)#}\<rparr>"
    by (subst processDirectory_scan[OF sc])
       (simp add: processFile_def within_default include_default d sh envTree_def
          newAnalysis_mt_def newAnalysis_def analysis.extend_def analysis_mt.fields_def claimDir_def)
  show "exec (processDirectory noEquivalent (newConfig_mt True 4) ''root'' envTree) newAnalysis_mt =
     newAnalysis_mt\<lparr>stats := [''[dotfile]'' \<mapsto> \<lparr>ft_count = 1, ft_totalSize = 100\<rparr>],
                    totalFiles := 1, totalSize := 100,
                    processedDirs := {''root''}, listed := {#(''root'', 1)#}\<rparr>"
    by (subst processDirectory_scan[OF sc])
       (simp add: processFile_def within_default include_default d sh envTree_def getFileType_env
          newAnalysis_mt_def newAnalysis_def analysis.extend_def analysis_mt.fields_def claimDir_def
          update_mt_def noStats_def)
qed

theorem hidden_file_accounting_witness:
  "analyzeFile (newConfig False) ''root/.env'' (Some 100) newAnalysis =
     (False, newAnalysis\<lparr>hiddenFiles := hiddenFiles newAnalysis + 1,
                          hiddenSize := hiddenSize newAnalysis + 100,
                          totalSize := totalSize newAnalysis + 100\<rparr>)
   \<and> exec (processFile (newConfig_mt True 4) ''root/.env'' (Some 100)) newAnalysis_mt =
       perform (UpdateStats ''[dotfile]'' 100) (perform (AddTotalSize 100) newAnalysis_mt)
   \<and> (case analyze noEquivalent (newConfig False) ''root'' envTree newAnalysis of
        Inr st \<Rightarrow> hiddenFiles st = 1 \<and> hiddenSize st = 100 \<and> totalSize st = 100 \<and> totalFiles st = 0
                \<and> stats st ''[dotfile]'' = None
      | Inl e \<Rightarrow> False)
   \<and> (case analyze noEquivalent (newConfig True) ''root'' envTree newAnalysis of
        Inr st \<Rightarrow> hiddenFiles st = 0 \<and> hiddenSize st = 0 \<and> totalSize st = 100 \<and> totalFiles st = 1
                \<and> stats st ''[dotfile]'' = Some \<lparr>ft_count = 1, ft_totalSize = 100\<rparr>
      | Inl e \<Rightarrow> False)
   \<and> exec (processDirectory noEquivalent (newConfig_mt False 4) ''root'' envTree) newAnalysis_mt =
       newAnalysis_mt\<lparr>totalSize := 100, hiddenFiles := 1, hiddenSize := 100,
                      processedDirs := {''root''}, listed := {#(''root'', 1)#}\<rparr>
   \<and> exec (processDirectory noEquivalent (newConfig_mt True 4) ''root'' envTree) newAnalysis_mt =
       newAnalysis_mt\<lparr>stats := [''[dotfile]'' \<mapsto> \<lparr>ft_count = 1, ft_totalSize = 100\<rparr>],
                      totalFiles := 1, totalSize := 100,
                      processedDirs := {''root''}, listed := {#(''root'', 1)#}\<rparr>"
proof -
  have w: "isWithinSizeThreshold (newConfig sh) 100" for sh
    by (simp add: isWithinSizeThreshold_def newConfig_def defaultThreshold_def SIZE_MAX_def)
  have i: "shouldInclude (newConfig sh) x" for sh x
    by (simp add: shouldInclude_def newConfig_def)
  have d: "startsWithDot ''root/.env''" by (simp add: startsWithDot_def filename_def)
  have h: "\<not> showHidden (newConfig False)" "showHidden (newConfig_mt True 4)"
    by (simp_all add: newConfig_def newConfig_mt_def)
  have a: "analyzeFile (newConfig False) ''root/.env'' (Some 100) newAnalysis =
     (False, newAnalysis\<lparr>hiddenFiles := hiddenFiles newAnalysis + 1,
                          hiddenSize := hiddenSize newAnalysis + 100,
                          totalSize := totalSize newAnalysis + 100\<rparr>)"
    by (rule hidden_file_accounting[OF w[of False] i[of False] d, where st = newAnalysis
        and s = newAnalysis_mt, THEN conjunct1, THEN mp, OF h(1), THEN conjunct1])
  have b: "exec (processFile (newConfig_mt True 4) ''root/.env'' (Some 100)) newAnalysis_mt =
       perform (UpdateStats ''[dotfile]'' 100) (perform (AddTotalSize 100) newAnalysis_mt)"
    using hidden_file_accounting[OF within_default[of True 4] include_default[of True 4] d,
        where st = newAnalysis and s = newAnalysis_mt, THEN conjunct2, THEN conjunct1, THEN mp, OF h(2),
        THEN conjunct2, THEN conjunct2, THEN conjunct2, THEN conjunct2]
    by (simp only: getFileType_env)
  show ?thesis
    by (rule conjI[OF a conjI[OF b conjI[OF env_da(1) conjI[OF env_da(2) conjI[OF env_mt(1) env_mt(2)]]]]])
qed

section \<open>The size and type filters\<close>

definition sizesTree :: node where
  "sizesTree = Directory 1 False
     [(''a.bin'', RegularFile (Some 500)),
      (''b.bin'', RegularFile (Some 2048)),
      (''c.bin'', RegularFile (Some 5000))]"

definition sizesConfig :: config where
  "sizesConfig = \<lparr>excludeDirs = [], includeTypes = {''.bin''}, showHidden = False,
                   sizeThreshold = \<lparr>minSize = 1024, maxSize = 4096\<rparr>\<rparr>"

definition sizesConfig_mt :: config_mt where
  "sizesConfig_mt = \<lparr>excludeDirs = [], includeTypes = {''.bin''}, showHidden = False,
                      sizeThreshold = \<lparr>minSize = 1024, maxSize = 4096\<rparr>, numThreads = 4\<rparr>"

lemma sizes_da:
  "case analyze noEquivalent sizesConfig ''root'' sizesTree newAnalysis of
     Inr st \<Rightarrow> totalFiles st = 1 \<and> totalSize st = 2048
             \<and> stats st ''.bin'' = Some \<lparr>ft_count = 1, ft_totalSize = 2048\<rparr>
   | Inl e \<Rightarrow> False"
  by code_simp

lemma getFileType_bin:
  "getFileType ''root/a.bin'' = ''.bin''" "getFileType ''root/b.bin'' = ''.bin''"
  "getFileType ''root/c.bin'' = ''.bin''"
  by code_simp+

lemma sizes_mt_exec:
  "exec (processDirectory noEquivalent sizesConfig_mt ''root'' sizesTree) newAnalysis_mt =
     newAnalysis_mt\<lparr>stats := [''.bin'' \<mapsto> \<lparr>ft_count = 1, ft_totalSize = 2048\<rparr>],
                    totalFiles := 1, totalSize := 2048,
                    processedDirs := {''root''}, listed := {#(''root'', 1)#}\<rparr>"
proof -
  have sc: "scanEntries noEquivalent sizesConfig_mt ''root'' (listing sizesTree) =
              ([], [(''root/a.bin'', Some 500), (''root/b.bin'', Some 2048), (''root/c.bin'', Some 5000)], [])"
    by (simp add: sizesTree_def shouldExclude_mt_def sizesConfig_mt_def join_def)
  have w: "\<not> isWithinSizeThreshold sizesConfig_mt 500" "isWithinSizeThreshold sizesConfig_mt 2048"
    "\<not> isWithinSizeThreshold sizesConfig_mt 5000"
    by (simp_all add: isWithinSizeThreshold_def sizesConfig_mt_def)
  have i: "shouldInclude sizesConfig_mt ''.bin''"
    by (simp add: shouldInclude_def sizesConfig_mt_def)
  have d: "\<not> startsWithDot ''root/b.bin''" by (simp add: startsWithDot_def filename_def)
  show ?thesis
    by (subst processDirectory_scan[OF sc])
       (simp add: processFile_def w i d getFileType_bin sizesTree_def
          newAnalysis_mt_def newAnalysis_def analysis.extend_def analysis_mt.fields_def claimDir_def
          update_mt_def noStats_def)
qed

lemma sizes_mt:
  assumes "analyze_mt noEquivalent sizesConfig_mt ''root'' sizesTree s r"
  shows "totalFiles r = 1"
proof -
  have "distinct (dirPaths ''root'' sizesTree)" by (simp add: sizesTree_def)
  then have "r = exec (processDirectory noEquivalent sizesConfig_mt ''root'' sizesTree) newAnalysis_mt"
    using assms by (rule analyze_mt_result)
  then show ?thesis by (simp add: sizes_mt_exec)
qed

text \<open>
  Claim C9. A regular file is left out, silently, as soon as its size is outside the
  threshold or its type is not included, whatever the other test says; it is accounted
  for when both tests pass. The size test reads only the size and the type test only
  the type. With sizes 500, 2048 and 5000, the threshold from 1024 to 4096 and the type
  of all three files included, both analyzers count one file.
\<close>

theorem filter_gates:
  "(\<not> isWithinSizeThreshold cfg sz \<or> \<not> shouldInclude cfg (getFileType p) \<longrightarrow>
      analyzeFile cfg p (Some sz) st = (False, st) \<and> processFile cfg p (Some sz) = Done)
   \<and> (isWithinSizeThreshold cfg sz \<and> shouldInclude cfg (getFileType p) \<longrightarrow>
        processFile cfg p (Some sz) \<noteq> Done
      \<and> totalSize (exec (processFile cfg p (Some sz)) s) = totalSize s + sz
      \<and> (fst (statsUpdate (getFileType p) sz st) = None \<or> (startsWithDot p \<and> \<not> showHidden cfg) \<longrightarrow>
           totalSize (snd (analyzeFile cfg p (Some sz) st)) = totalSize st + sz))
   \<and> (isWithinSizeThreshold cfg sz \<longleftrightarrow>
        minSize (sizeThreshold cfg) \<le> sz \<and> sz \<le> maxSize (sizeThreshold cfg))
   \<and> (shouldInclude cfg t \<longleftrightarrow> includeTypes cfg = {} \<or> t \<in> includeTypes cfg)
   \<and> (case analyze noEquivalent sizesConfig ''root'' sizesTree newAnalysis of
        Inr st \<Rightarrow> totalFiles st = 1 \<and> totalSize st = 2048
                \<and> stats st ''.bin'' = Some \<lparr>ft_count = 1, ft_totalSize = 2048\<rparr>
      | Inl e \<Rightarrow> False)
   \<and> (\<forall>s0 r. analyze_mt noEquivalent sizesConfig_mt ''root'' sizesTree s0 r \<longrightarrow> totalFiles r = 1)"
proof (intro conjI impI allI)
  assume "\<not> isWithinSizeThreshold cfg sz \<or> \<not> shouldInclude cfg (getFileType p)"
  then show "analyzeFile cfg p (Some sz) st = (False, st)" "processFile cfg p (Some sz) = Done"
    by (auto simp: analyzeFile_def processFile_def)
next
  assume a: "isWithinSizeThreshold cfg sz \<and> shouldInclude cfg (getFileType p)"
  show "processFile cfg p (Some sz) \<noteq> Done"
    using a by (simp add: processFile_def)
  show "totalSize (exec (processFile cfg p (Some sz)) s) = totalSize s + sz"
    using a by (simp add: processFile_def)
  assume "fst (statsUpdate (getFileType p) sz st) = None \<or> (startsWithDot p \<and> \<not> showHidden cfg)"
  then show "totalSize (snd (analyzeFile cfg p (Some sz) st)) = totalSize st + sz"
    using a by (auto simp: analyzeFile_def statsUpdate_def Let_def split: prod.splits option.splits)
next
  show "isWithinSizeThreshold cfg sz \<longleftrightarrow>
        minSize (sizeThreshold cfg) \<le> sz \<and> sz \<le> maxSize (sizeThreshold cfg)"
    by (simp add: isWithinSizeThreshold_def)
next
  show "shouldInclude cfg t \<longleftrightarrow> includeTypes cfg = {} \<or> t \<in> includeTypes cfg"
    by (simp add: shouldInclude_def)
next
  show "case analyze noEquivalent sizesConfig ''root'' sizesTree newAnalysis of
        Inr st \<Rightarrow> totalFiles st = 1 \<and> totalSize st = 2048
                \<and> stats st ''.bin'' = Some \<lparr>ft_count = 1, ft_totalSize = 2048\<rparr>
      | Inl e \<Rightarrow> False"
    by (rule sizes_da)
next
  fix s0 r assume "analyze_mt noEquivalent sizesConfig_mt ''root'' sizesTree s0 r"
  then show "totalFiles r = 1" by (rule sizes_mt)
qed

theorem filter_gates_witness:
  "analyzeFile sizesConfig ''root/c.bin'' (Some 5000) newAnalysis = (False, newAnalysis)
   \<and> processFile sizesConfig_mt ''root/a.bin'' (Some 500) = Done
   \<and> processFile sizesConfig_mt ''root/b.bin'' (Some 2048) \<noteq> Done
   \<and> totalFiles (exec (processDirectory noEquivalent sizesConfig_mt ''root'' sizesTree)
                   (reset newAnalysis_mt)) = 1"
proof -
  have w: "\<not> isWithinSizeThreshold sizesConfig 5000" "\<not> isWithinSizeThreshold sizesConfig_mt 500"
    "isWithinSizeThreshold sizesConfig_mt 2048"
    by (simp_all add: isWithinSizeThreshold_def sizesConfig_def sizesConfig_mt_def)
  have i: "shouldInclude sizesConfig_mt (getFileType ''root/b.bin'')"
    by (simp add: shouldInclude_def sizesConfig_mt_def getFileType_bin)
  have a: "analyzeFile sizesConfig ''root/c.bin'' (Some 5000) newAnalysis = (False, newAnalysis)"
    using filter_gates[where cfg = sizesConfig and sz = 5000 and p = "''root/c.bin''"
        and st = newAnalysis, THEN conjunct1] w(1) by blast
  have b: "processFile sizesConfig_mt ''root/a.bin'' (Some 500) = Done"
    using filter_gates[where cfg = sizesConfig_mt and sz = 500 and p = "''root/a.bin''"
        and st = newAnalysis, THEN conjunct1] w(2) by blast
  have c: "processFile sizesConfig_mt ''root/b.bin'' (Some 2048) \<noteq> Done"
    using filter_gates[where cfg = sizesConfig_mt and sz = 2048 and p = "''root/b.bin''"
        and st = newAnalysis and s = newAnalysis_mt, THEN conjunct2, THEN conjunct1] w(3) i by blast
  have d: "totalFiles (exec (processDirectory noEquivalent sizesConfig_mt ''root'' sizesTree)
                   (reset newAnalysis_mt)) = 1"
    using filter_gates[where cfg = sizesConfig, THEN conjunct2, THEN conjunct2, THEN conjunct2,
        THEN conjunct2, THEN conjunct2, THEN spec, THEN spec, THEN mp,
        OF analyze_mt_exec[of noEquivalent sizesConfig_mt "''root''" sizesTree newAnalysis_mt]] .
  show ?thesis by (rule conjI[OF a conjI[OF b conjI[OF c d]]])
qed

end
